theory Spec2Isabelle
  imports Main "HOL-Library.Word"
begin

unbundle bit_operations_syntax

section \<open>Python values and exceptions\<close>

text \<open>
  The codec of \<^verbatim>\<open>passlib/utils/binary.py\<close> works on Python \<^verbatim>\<open>bytes\<close> objects: a
  sequence of integers in \<open>[0, 256)\<close>, here a list of 8-bit words. The values the
  generators compute from them are Python integers (unbounded), here \<open>int\<close>.
  A unicode string is the list of its code points. The model follows the \<^verbatim>\<open>PY3\<close> branches
  of the source (indexing and iterating a \<^verbatim>\<open>bytes\<close> object gives integers).
\<close>

type_synonym byte = "8 word"

datatype pyval =
    PyBytes "byte list"
  | PyUnicode "nat list"
  | PyInt int
  | PyNone

datatype error =
    TypeError
  | ValueError
  | KeyError
  | IndexError
  | StopIteration
  | AssertionError
  | UnicodeEncodeError

text \<open>Sequencing of calls that may raise: the first exception ends the computation.\<close>

definition bind_e :: "error + 'a \<Rightarrow> ('a \<Rightarrow> error + 'b) \<Rightarrow> error + 'b" where
  "bind_e m f = (case m of Inl e \<Rightarrow> Inl e | Inr x \<Rightarrow> f x)"

text \<open>\<^verbatim>\<open>imap(f, xs)\<close> drawn to its end: the results in order, or the first exception.\<close>

fun imap :: "('a \<Rightarrow> error + 'b) \<Rightarrow> 'a list \<Rightarrow> error + 'b list" where
  "imap f [] = Inr []"
| "imap f (x # xs) = bind_e (f x) (\<lambda>y. bind_e (imap f xs) (\<lambda>ys. Inr (y # ys)))"

text \<open>
  \<^verbatim>\<open>nextgetter(it)\<close> is the iterator's \<^verbatim>\<open>next\<close>: a call takes the first remaining
  item, applies the (lazy) map \<open>f\<close> of the iterator to it and returns the value with the
  rest of the iterator; on an exhausted iterator it raises \<^verbatim>\<open>StopIteration\<close>.
\<close>

fun next_value :: "('a \<Rightarrow> error + int) \<Rightarrow> 'a list \<Rightarrow> error + (int \<times> 'a list)" where
  "next_value f [] = Inl StopIteration"
| "next_value f (x # it) = bind_e (f x) (\<lambda>v. Inr (v, it))"

text \<open>\<^verbatim>\<open>join_byte_values\<close> is \<^verbatim>\<open>bytes(values)\<close>, which refuses a value outside \<open>[0, 256)\<close>.\<close>

definition join_byte_values :: "int list \<Rightarrow> error + byte list" where
  "join_byte_values vs =
     (if list_all (\<lambda>v. 0 \<le> v \<and> v < 256) vs then Inr (map word_of_int vs) else Inl ValueError)"

section \<open>Base64Engine\<close>

record Base64Engine =
  bytemap :: "byte list"
  big :: bool

definition encode_latin1 :: "nat list \<Rightarrow> error + byte list" where
  "encode_latin1 s =
     (if list_all (\<lambda>c. c < 256) s then Inr (map of_nat s) else Inl UnicodeEncodeError)"

text \<open>\<^verbatim>\<open>Base64Engine.__init__\<close>: the character map must have 64 distinct symbols.\<close>

definition Base64Engine_init :: "pyval \<Rightarrow> bool \<Rightarrow> error + Base64Engine" where
  "Base64Engine_init charmap b =
     bind_e (case charmap of
               PyUnicode s \<Rightarrow> encode_latin1 s
             | PyBytes s \<Rightarrow> Inr s
             | _ \<Rightarrow> Inl TypeError)
       (\<lambda>cm. if length cm \<noteq> 64 then Inl ValueError
             else if length (remdups cm) \<noteq> 64 then Inl ValueError
             else Inr \<lparr>bytemap = cm, big = b\<rparr>)"

text \<open>The property \<^verbatim>\<open>charmap\<close>: the byte map decoded as latin-1.\<close>

definition charmap :: "Base64Engine \<Rightarrow> nat list" where
  "charmap e = map unat (bytemap e)"

text \<open>
  \<^verbatim>\<open>_encode64 = charmap.__getitem__\<close>: Python indexing, where a negative index counts
  from the end and an index out of range raises \<^verbatim>\<open>IndexError\<close>.
\<close>

definition encode64 :: "Base64Engine \<Rightarrow> int \<Rightarrow> error + byte" where
  "encode64 e i =
     (let n = int (length (bytemap e)); j = (if i < 0 then n + i else i)
      in if 0 \<le> j \<and> j < n then Inr (bytemap e ! nat j) else Inl IndexError)"

text \<open>
  \<^verbatim>\<open>lookup = dict((value, idx) for idx, value in enumerate(charmap))\<close>: a later pair
  overrides an earlier one with the same key. \<^verbatim>\<open>_decode64 = lookup.__getitem__\<close> raises
  \<^verbatim>\<open>KeyError\<close> on a missing key.
\<close>

definition lookup :: "byte list \<Rightarrow> byte \<rightharpoonup> int" where
  "lookup cm = fold (\<lambda>(idx, c) m. m(c \<mapsto> int idx)) (enumerate 0 cm) Map.empty"

definition decode64 :: "Base64Engine \<Rightarrow> byte \<Rightarrow> error + int" where
  "decode64 e c = (case lookup (bytemap e) c of None \<Rightarrow> Inl KeyError | Some v \<Rightarrow> Inr v)"

subsection \<open>Encoding byte strings\<close>

text \<open>
  The generators draw their input from \<^verbatim>\<open>next_value\<close> and yield 6-bit values. The
  \<^verbatim>\<open>while idx < chunks\<close> loop is a recursion on the number of chunks left; the result
  holds the values yielded and the iterator as the loop leaves it.
\<close>

fun encode_bytes_little_loop ::
  "('a \<Rightarrow> error + int) \<Rightarrow> nat \<Rightarrow> 'a list \<Rightarrow> error + (int list \<times> 'a list)" where
  "encode_bytes_little_loop f 0 it = Inr ([], it)"
| "encode_bytes_little_loop f (Suc n) it =
     bind_e (next_value f it) (\<lambda>(v1, it).
     bind_e (next_value f it) (\<lambda>(v2, it).
     bind_e (next_value f it) (\<lambda>(v3, it).
     bind_e (encode_bytes_little_loop f n it) (\<lambda>(out, it).
       Inr ([v1 AND 0x3f,
             push_bit 2 (v2 AND 0x0f) OR drop_bit 6 v1,
             push_bit 4 (v3 AND 0x03) OR drop_bit 4 v2,
             drop_bit 2 v3] @ out, it)))))"

definition encode_bytes_little ::
  "('a \<Rightarrow> error + int) \<Rightarrow> 'a list \<Rightarrow> nat \<Rightarrow> nat \<Rightarrow> error + int list" where
  "encode_bytes_little f it chunks tail =
     bind_e (encode_bytes_little_loop f chunks it) (\<lambda>(out, it).
       if tail \<noteq> 0 then
         bind_e (next_value f it) (\<lambda>(v1, it).
           if tail = 1 then Inr (out @ [v1 AND 0x3f, drop_bit 6 v1])
           else if tail \<noteq> 2 then Inl AssertionError
           else bind_e (next_value f it) (\<lambda>(v2, it).
             Inr (out @ [v1 AND 0x3f,
                         push_bit 2 (v2 AND 0x0f) OR drop_bit 6 v1,
                         drop_bit 4 v2])))
       else Inr out)"

fun encode_bytes_big_loop ::
  "('a \<Rightarrow> error + int) \<Rightarrow> nat \<Rightarrow> 'a list \<Rightarrow> error + (int list \<times> 'a list)" where
  "encode_bytes_big_loop f 0 it = Inr ([], it)"
| "encode_bytes_big_loop f (Suc n) it =
     bind_e (next_value f it) (\<lambda>(v1, it).
     bind_e (next_value f it) (\<lambda>(v2, it).
     bind_e (next_value f it) (\<lambda>(v3, it).
     bind_e (encode_bytes_big_loop f n it) (\<lambda>(out, it).
       Inr ([drop_bit 2 v1,
             push_bit 4 (v1 AND 0x03) OR drop_bit 4 v2,
             push_bit 2 (v2 AND 0x0f) OR drop_bit 6 v3,
             v3 AND 0x3f] @ out, it)))))"

definition encode_bytes_big ::
  "('a \<Rightarrow> error + int) \<Rightarrow> 'a list \<Rightarrow> nat \<Rightarrow> nat \<Rightarrow> error + int list" where
  "encode_bytes_big f it chunks tail =
     bind_e (encode_bytes_big_loop f chunks it) (\<lambda>(out, it).
       if tail \<noteq> 0 then
         bind_e (next_value f it) (\<lambda>(v1, it).
           if tail = 1 then Inr (out @ [drop_bit 2 v1, push_bit 4 (v1 AND 0x03)])
           else if tail \<noteq> 2 then Inl AssertionError
           else bind_e (next_value f it) (\<lambda>(v2, it).
             Inr (out @ [drop_bit 2 v1,
                         push_bit 4 (v1 AND 0x03) OR drop_bit 4 v2,
                         push_bit 2 (v2 AND 0x0f)])))
       else Inr out)"

text \<open>
  \<^verbatim>\<open>encode_bytes\<close>: anything but a \<^verbatim>\<open>bytes\<close> object is a \<^verbatim>\<open>TypeError\<close>; the values of
  the generator are looked up in the character map and joined.
\<close>

definition encode_bytes :: "Base64Engine \<Rightarrow> pyval \<Rightarrow> error + byte list" where
  "encode_bytes e source =
     (case source of
        PyBytes s \<Rightarrow>
          (let chunks = length s div 3; tail = length s mod 3;
               elem = (\<lambda>b. Inr (uint b))
           in bind_e ((if big e then encode_bytes_big else encode_bytes_little) elem s chunks tail)
                (imap (encode64 e)))
      | _ \<Rightarrow> Inl TypeError)"

subsection \<open>Decoding byte strings\<close>

fun decode_bytes_little_loop ::
  "('a \<Rightarrow> error + int) \<Rightarrow> nat \<Rightarrow> 'a list \<Rightarrow> error + (int list \<times> 'a list)" where
  "decode_bytes_little_loop f 0 it = Inr ([], it)"
| "decode_bytes_little_loop f (Suc n) it =
     bind_e (next_value f it) (\<lambda>(v1, it).
     bind_e (next_value f it) (\<lambda>(v2, it).
     bind_e (next_value f it) (\<lambda>(v3, it).
     bind_e (next_value f it) (\<lambda>(v4, it).
     bind_e (decode_bytes_little_loop f n it) (\<lambda>(out, it).
       Inr ([v1 OR push_bit 6 (v2 AND 0x3),
             drop_bit 2 v2 OR push_bit 4 (v3 AND 0xF),
             drop_bit 4 v3 OR push_bit 2 v4] @ out, it))))))"

definition decode_bytes_little ::
  "('a \<Rightarrow> error + int) \<Rightarrow> 'a list \<Rightarrow> nat \<Rightarrow> nat \<Rightarrow> error + int list" where
  "decode_bytes_little f it chunks tail =
     bind_e (decode_bytes_little_loop f chunks it) (\<lambda>(out, it).
       if tail \<noteq> 0 then
         bind_e (next_value f it) (\<lambda>(v1, it).
         bind_e (next_value f it) (\<lambda>(v2, it).
           if tail = 3 then
             bind_e (next_value f it) (\<lambda>(v3, it).
               Inr (out @ [v1 OR push_bit 6 (v2 AND 0x3),
                           drop_bit 2 v2 OR push_bit 4 (v3 AND 0xF)]))
           else Inr (out @ [v1 OR push_bit 6 (v2 AND 0x3)])))
       else Inr out)"

fun decode_bytes_big_loop ::
  "('a \<Rightarrow> error + int) \<Rightarrow> nat \<Rightarrow> 'a list \<Rightarrow> error + (int list \<times> 'a list)" where
  "decode_bytes_big_loop f 0 it = Inr ([], it)"
| "decode_bytes_big_loop f (Suc n) it =
     bind_e (next_value f it) (\<lambda>(v1, it).
     bind_e (next_value f it) (\<lambda>(v2, it).
     bind_e (next_value f it) (\<lambda>(v3, it).
     bind_e (next_value f it) (\<lambda>(v4, it).
     bind_e (decode_bytes_big_loop f n it) (\<lambda>(out, it).
       Inr ([push_bit 2 v1 OR drop_bit 4 v2,
             push_bit 4 (v2 AND 0xF) OR drop_bit 2 v3,
             push_bit 6 (v3 AND 0x3) OR v4] @ out, it))))))"

definition decode_bytes_big ::
  "('a \<Rightarrow> error + int) \<Rightarrow> 'a list \<Rightarrow> nat \<Rightarrow> nat \<Rightarrow> error + int list" where
  "decode_bytes_big f it chunks tail =
     bind_e (decode_bytes_big_loop f chunks it) (\<lambda>(out, it).
       if tail \<noteq> 0 then
         bind_e (next_value f it) (\<lambda>(v1, it).
         bind_e (next_value f it) (\<lambda>(v2, it).
           if tail = 3 then
             bind_e (next_value f it) (\<lambda>(v3, it).
               Inr (out @ [push_bit 2 v1 OR drop_bit 4 v2,
                           push_bit 4 (v2 AND 0xF) OR drop_bit 2 v3]))
           else Inr (out @ [push_bit 2 v1 OR drop_bit 4 v2])))
       else Inr out)"

text \<open>
  \<^verbatim>\<open>decode_bytes\<close>: the symbols are looked up lazily, as the generator asks for them; a
  \<^verbatim>\<open>KeyError\<close> of the lookup is turned into a \<^verbatim>\<open>ValueError\<close>.
\<close>

definition decode_bytes :: "Base64Engine \<Rightarrow> pyval \<Rightarrow> error + byte list" where
  "decode_bytes e source =
     (case source of
        PyBytes s \<Rightarrow>
          (let chunks = length s div 4; tail = length s mod 4
           in if tail = 1 then Inl ValueError
              else (case bind_e ((if big e then decode_bytes_big else decode_bytes_little)
                                   (decode64 e) s chunks tail) join_byte_values of
                      Inl KeyError \<Rightarrow> Inl ValueError
                    | r \<Rightarrow> r))
      | _ \<Rightarrow> Inl TypeError)"

subsection \<open>Repairing the unused bits of the last symbol\<close>

text \<open>
  An element of a byte string is an integer, an element of a unicode string is a string of
  one character; the pad sets hold both kinds, and an integer never equals a string.
\<close>

datatype elem = IntElem int | StrElem nat

text \<open>\<^verbatim>\<open>__make_padset(bits)\<close>: the symbols whose index has none of \<open>bits\<close> set.\<close>

definition make_padset :: "Base64Engine \<Rightarrow> int \<Rightarrow> elem list" where
  "make_padset e bits =
     map (\<lambda>(i, c). IntElem (uint c)) (filter (\<lambda>(i, c). int i AND bits = 0) (enumerate 0 (bytemap e))) @
     map (\<lambda>(i, c). StrElem c) (filter (\<lambda>(i, c). int i AND bits = 0) (enumerate 0 (charmap e)))"

definition padinfo2 :: "Base64Engine \<Rightarrow> int \<times> elem list" where
  "padinfo2 e = (let bits = (if big e then 15 else push_bit 2 15) in (NOT bits, make_padset e bits))"

definition padinfo3 :: "Base64Engine \<Rightarrow> int \<times> elem list" where
  "padinfo3 e = (let bits = (if big e then 3 else push_bit 4 3) in (NOT bits, make_padset e bits))"

text \<open>\<^verbatim>\<open>cm.index(x)\<close>: the first position of \<open>x\<close>, \<^verbatim>\<open>ValueError\<close> when there is none.\<close>

fun str_index :: "nat list \<Rightarrow> nat \<Rightarrow> error + int" where
  "str_index [] x = Inl ValueError"
| "str_index (c # cs) x = (if c = x then Inr 0 else bind_e (str_index cs x) (\<lambda>i. Inr (i + 1)))"

definition str_getitem :: "nat list \<Rightarrow> int \<Rightarrow> error + nat" where
  "str_getitem cs i =
     (let n = int (length cs); j = (if i < 0 then n + i else i)
      in if 0 \<le> j \<and> j < n then Inr (cs ! nat j) else Inl IndexError)"

text \<open>
  \<^verbatim>\<open>check_repair_unused\<close>. The length test comes first: a string whose length is a
  multiple of 4 is returned as it is, a length of 1 mod 4 is a \<^verbatim>\<open>ValueError\<close>; the two
  remaining cases choose the mask and the pad set. A value that has no \<^verbatim>\<open>len\<close> is a
  \<^verbatim>\<open>TypeError\<close>. The lookups of the repair are not guarded: a last symbol outside the
  character map raises \<^verbatim>\<open>KeyError\<close> (byte strings) or \<^verbatim>\<open>ValueError\<close> (unicode).
\<close>

definition check_repair_unused :: "Base64Engine \<Rightarrow> pyval \<Rightarrow> error + (bool \<times> pyval)" where
  "check_repair_unused e source =
     bind_e (case source of
               PyBytes s \<Rightarrow> Inr (length s)
             | PyUnicode s \<Rightarrow> Inr (length s)
             | _ \<Rightarrow> Inl TypeError)
       (\<lambda>len.
          let tail = len mod 4 in
          if tail = 0 then Inr (False, source)
          else if tail \<noteq> 2 \<and> tail \<noteq> 3 then Inl ValueError
          else
            let (mask, padset) = (if tail = 2 then padinfo2 e else padinfo3 e) in
            (case source of
               PyBytes s \<Rightarrow>
                 if IntElem (uint (last s)) \<in> set padset then Inr (False, source)
                 else bind_e (decode64 e (last s)) (\<lambda>v.
                      bind_e (encode64 e (v AND mask)) (\<lambda>l.
                        if IntElem (uint l) \<notin> set padset then Inl AssertionError
                        else Inr (True, PyBytes (butlast s @ [l]))))
             | PyUnicode s \<Rightarrow>
                 if StrElem (last s) \<in> set padset then Inr (False, source)
                 else bind_e (str_index (charmap e) (last s)) (\<lambda>i.
                      bind_e (str_getitem (charmap e) (i AND mask)) (\<lambda>l.
                        if StrElem l \<notin> set padset then Inl AssertionError
                        else Inr (True, PyUnicode (butlast s @ [l]))))
             | _ \<Rightarrow> Inl TypeError))"

subsection \<open>Integers\<close>

text \<open>
  \<^verbatim>\<open>irange(start, stop, step)\<close> is Python's \<^verbatim>\<open>range\<close>: it raises \<^verbatim>\<open>ValueError\<close> for a
  step of 0.
\<close>

definition irange :: "int \<Rightarrow> int \<Rightarrow> int \<Rightarrow> error + int list" where
  "irange start stop step =
     (if step = 0 then Inl ValueError
      else if step > 0 then
        Inr (map (\<lambda>k. start + step * int k) [0..<nat ((stop - start + step - 1) div step)])
      else
        Inr (map (\<lambda>k. start + step * int k) [0..<nat ((start - stop - step - 1) div (- step))]))"

text \<open>
  \<^verbatim>\<open>_encode_int(value, bits)\<close>. The offsets of \<^verbatim>\<open>itr\<close> are never negative (they are
  multiples of 6 above \<open>-6\<close>), so \<^verbatim>\<open>value >> off\<close> is \<open>drop_bit (nat off) value\<close>.
\<close>

definition encode_int :: "Base64Engine \<Rightarrow> int \<Rightarrow> int \<Rightarrow> error + byte list" where
  "encode_int e v bits =
     (if \<not> v \<ge> 0 then Inl AssertionError
      else
        let pad = (- bits) mod 6; bits = bits + pad in
        if big e then
          bind_e (irange (bits - 6) (- 6) (- 6)) (\<lambda>itr.
            let v = push_bit (nat pad) v
            in imap (encode64 e) (map (\<lambda>off. drop_bit (nat off) v AND 0x3f) itr))
        else
          bind_e (irange 0 bits 6) (\<lambda>itr.
            imap (encode64 e) (map (\<lambda>off. drop_bit (nat off) v AND 0x3f) itr)))"

definition encode_int64 :: "Base64Engine \<Rightarrow> int \<Rightarrow> error + byte list" where
  "encode_int64 e v =
     (if v < 0 \<or> v > 0xffffffffffffffff then Inl ValueError else encode_int e v 64)"

text \<open>
  \<^verbatim>\<open>_decode_int(source, bits)\<close>. \<^verbatim>\<open>chars = (bits+pad)/6\<close> is a true division, of a
  multiple of 6, and is compared with the length as a number. The loop adds the symbols
  from the most significant one. \<^verbatim>\<open>1<<bits\<close> raises \<^verbatim>\<open>ValueError\<close> for a negative count.
\<close>

fun decode_int_loop :: "('a \<Rightarrow> error + int) \<Rightarrow> 'a list \<Rightarrow> int \<Rightarrow> error + int" where
  "decode_int_loop decode [] out = Inr out"
| "decode_int_loop decode (c # cs) out =
     bind_e (decode c) (\<lambda>v. decode_int_loop decode cs (push_bit 6 out + v))"

definition decode_int :: "Base64Engine \<Rightarrow> pyval \<Rightarrow> int \<Rightarrow> error + int" where
  "decode_int e source bits =
     (case source of
        PyBytes s \<Rightarrow>
          (let pad = (- bits) mod 6; chars = (bits + pad) div 6
           in if int (length s) \<noteq> chars then Inl ValueError
              else (case decode_int_loop (decode64 e) (if big e then s else rev s) 0 of
                      Inl KeyError \<Rightarrow> Inl ValueError
                    | Inl er \<Rightarrow> Inl er
                    | Inr out \<Rightarrow>
                        if pad \<noteq> 0 then
                          (if big e then Inr (drop_bit (nat pad) out)
                           else if bits < 0 then Inl ValueError
                           else Inr (out AND (push_bit (nat bits) 1 - 1)))
                        else Inr out))
      | _ \<Rightarrow> Inl TypeError)"

definition decode_int64 :: "Base64Engine \<Rightarrow> pyval \<Rightarrow> error + int" where
  "decode_int64 e source = decode_int e source 64"

subsection \<open>The character maps and engines of the module\<close>

definition BASE64_CHARS :: "nat list" where
  "BASE64_CHARS =
     map of_char ''ABCDEFGHIJKLMNOPQRSTUVWXYZabcdefghijklmnopqrstuvwxyz0123456789+/''"

definition HASH64_CHARS :: "nat list" where
  "HASH64_CHARS =
     map of_char ''./0123456789ABCDEFGHIJKLMNOPQRSTUVWXYZabcdefghijklmnopqrstuvwxyz''"

definition BCRYPT_CHARS :: "nat list" where
  "BCRYPT_CHARS =
     map of_char ''./ABCDEFGHIJKLMNOPQRSTUVWXYZabcdefghijklmnopqrstuvwxyz0123456789''"

definition h64 :: "error + Base64Engine" where
  "h64 = Base64Engine_init (PyUnicode HASH64_CHARS) False"

definition h64big :: "error + Base64Engine" where
  "h64big = Base64Engine_init (PyUnicode HASH64_CHARS) True"

definition bcrypt64 :: "error + Base64Engine" where
  "bcrypt64 = Base64Engine_init (PyUnicode BCRYPT_CHARS) True"

section \<open>Registry\<close>

text \<open>
  Modelled from the spec: \<^verbatim>\<open>passlib/registry.py\<close> (\<^verbatim>\<open>register_crypt_handler\<close>,
  \<^verbatim>\<open>register_crypt_handler_path\<close>, \<^verbatim>\<open>get_crypt_handler\<close>) is not among the sources; only
  its tests are. The definitions follow section 4.2 of the specification; the exceptions
  are the ones \<^verbatim>\<open>test_registry.py\<close> expects (\<^verbatim>\<open>ValueError\<close> for a name that is refused,
  \<^verbatim>\<open>KeyError\<close> for a collision and for a name that is not found). A handler type is its
  name and an identity, two handler types being the same object when both agree. The
  import of a module is a parameter of \<open>resolve\<close>.

  A scheme name is lowercase and underscore-delimited (section 3): the underscores stand
  between the parts of the name, so a name that registration accepts has no underscore at
  its start or at its end and no two in a row, besides being non-empty, without uppercase
  letters or hyphens, and different from \<^verbatim>\<open>default\<close>. Private names, those with a leading
  underscore, are therefore never registered, as they are never resolved.
\<close>

record handler =
  name :: string
  ident :: nat

datatype location = Location string "string option"

record registry =
  handlers :: "string \<rightharpoonup> handler"
  locations :: "string \<rightharpoonup> location"

fun doubly_underscored :: "string \<Rightarrow> bool" where
  "doubly_underscored (a # b # cs) =
     ((a = CHR ''_'' \<and> b = CHR ''_'') \<or> doubly_underscored (b # cs))"
| "doubly_underscored _ = False"

definition is_private :: "string \<Rightarrow> bool" where
  "is_private n = (case n of [] \<Rightarrow> False | c # _ \<Rightarrow> c = CHR ''_'')"

definition valid_handler_name :: "string \<Rightarrow> bool" where
  "valid_handler_name n \<longleftrightarrow>
     n \<noteq> [] \<and>
     \<not> list_ex (\<lambda>c. c \<in> set ''ABCDEFGHIJKLMNOPQRSTUVWXYZ'') n \<and>
     CHR ''-'' \<notin> set n \<and>
     \<not> is_private n \<and>
     \<not> is_private (rev n) \<and>
     \<not> doubly_underscored n \<and>
     n \<noteq> ''default''"


definition register_lazy :: "registry \<Rightarrow> string \<Rightarrow> location \<Rightarrow> error + registry" where
  "register_lazy r n loc =
     (if \<not> valid_handler_name n then Inl ValueError
      else Inr (r\<lparr>locations := (locations r)(n \<mapsto> loc)\<rparr>))"





section \<open>Policy\<close>

text \<open>
  Modelled from the spec: \<^verbatim>\<open>passlib/context.py\<close> (\<^verbatim>\<open>CryptPolicy\<close>) is not among the
  sources; only \<^verbatim>\<open>test_context_deprecated.py\<close> is. The definitions follow sections 3 and
  4.4 of the specification. A source gives the scheme list and the default only when it
  has them; the lists of deprecated schemes are kept by category (\<open>None\<close> is the global
  scope) and the options by (category, scheme or \<^verbatim>\<open>all\<close>, option name), both as
  association lists whose first entry for a key is the one in force. As in
  \<^verbatim>\<open>test_05_replace\<close> and \<^verbatim>\<open>test_10_has_schemes\<close>, a source without a scheme list is a
  policy, and its default is then not checked against the list.
\<close>

datatype optvalue = IntVal int | StrVal string

type_synonym optkey = "string option \<times> string \<times> string"

record policy_source =
  src_schemes :: "string list option"
  src_default :: "string option"
  src_deprecated :: "(string option \<times> string list) list"
  src_options :: "(optkey \<times> optvalue) list"

record policy =
  schemes :: "string list"
  default_scheme :: "string option"
  deprecated :: "(string option \<times> string list) list"
  options :: "(optkey \<times> optvalue) list"

text \<open>
  A later source overrides: the scheme list, the default and a list of deprecated schemes
  are replaced as a whole when the later source has them, options key by key.
\<close>

definition merge_sources :: "policy_source \<Rightarrow> policy_source \<Rightarrow> policy_source" where
  "merge_sources a b =
     \<lparr>src_schemes = (case src_schemes b of Some x \<Rightarrow> Some x | None \<Rightarrow> src_schemes a),
      src_default = (case src_default b of Some x \<Rightarrow> Some x | None \<Rightarrow> src_default a),
      src_deprecated = src_deprecated b @ src_deprecated a,
      src_options = src_options b @ src_options a\<rparr>"

definition validate_source :: "policy_source \<Rightarrow> error + policy" where
  "validate_source s =
     (let ss = (case src_schemes s of None \<Rightarrow> [] | Some x \<Rightarrow> x) in
      if list_ex (\<lambda>((cat, scheme, opt), v). opt = ''salt'') (src_options s) then Inl KeyError
      else if ss \<noteq> [] \<and> (case src_default s of None \<Rightarrow> False | Some d \<Rightarrow> d \<notin> set ss)
        then Inl KeyError
      else if ss \<noteq> [] \<and>
              list_ex (\<lambda>(cat, ds). list_ex (\<lambda>d. d \<notin> set ss) ds) (src_deprecated s)
        then Inl KeyError
      else Inr \<lparr>schemes = ss, default_scheme = src_default s,
                deprecated = src_deprecated s, options = src_options s\<rparr>)"

definition from_sources :: "policy_source list \<Rightarrow> error + policy" where
  "from_sources srcs =
     (case srcs of [] \<Rightarrow> Inl ValueError | s # ss \<Rightarrow> validate_source (foldl merge_sources s ss))"

definition to_source :: "policy \<Rightarrow> policy_source" where
  "to_source p =
     \<lparr>src_schemes = (if schemes p = [] then None else Some (schemes p)),
      src_default = default_scheme p,
      src_deprecated = deprecated p,
      src_options = options p\<rparr>"

definition replace :: "policy \<Rightarrow> policy_source \<Rightarrow> error + policy" where
  "replace p src = from_sources [to_source p, src]"

text \<open>
  A scheme is deprecated for a category when it is in that category's list, if the
  category has one, and in the global list otherwise.
\<close>

definition handler_is_deprecated :: "policy \<Rightarrow> string \<Rightarrow> string option \<Rightarrow> bool" where
  "handler_is_deprecated p scheme category =
     (case map_of (deprecated p) category of
        Some ds \<Rightarrow> scheme \<in> set ds
      | None \<Rightarrow>
          (case map_of (deprecated p) None of
             Some ds \<Rightarrow> scheme \<in> set ds
           | None \<Rightarrow> False))"

text \<open>The two sources of the policy example: the policy itself, and the overlay.\<close>

definition ab_source :: policy_source where
  "ab_source = \<lparr>src_schemes = Some [''a'', ''b''], src_default = Some ''a'',
                 src_deprecated = [(None, [''a''])], src_options = []\<rparr>"

definition default_b :: policy_source where
  "default_b = \<lparr>src_schemes = None, src_default = Some ''b'', src_deprecated = [],
                 src_options = []\<rparr>"

section \<open>Handlers with rounds\<close>

text \<open>
  Modelled from the spec: \<^verbatim>\<open>passlib/utils/handlers.py\<close> (\<^verbatim>\<open>HasRounds\<close>) is not among the
  sources; only \<^verbatim>\<open>test_utils_handlers.py\<close> is. The definitions follow the Rounds
  capability of section 4.3: \<^verbatim>\<open>rounds\<close> must be an integer in
  \<^verbatim>\<open>[min_rounds, max_rounds]\<close>, and an omitted value is \<^verbatim>\<open>default_rounds\<close> when defaults
  are requested. The settings of an instance satisfy the bounds of its scheme (section 3),
  so the default goes through the same check as a value that is given. The exceptions
  are the ones \<^verbatim>\<open>test_30_init_rounds\<close> expects: \<^verbatim>\<open>ValueError\<close> for a value out of range,
  \<^verbatim>\<open>TypeError\<close> for a value that is missing or not an integer, and also when defaults are
  requested from a handler whose \<^verbatim>\<open>default_rounds\<close> is \<^verbatim>\<open>None\<close>. The constructor takes
  \<^verbatim>\<open>rounds\<close> and \<^verbatim>\<open>use_defaults\<close>; it never clamps.
\<close>

record rounds_handler =
  min_rounds :: int
  max_rounds :: int
  default_rounds :: "int option"

datatype rounds_arg = NoRounds | IntRounds int | OtherRounds

definition norm_rounds :: "rounds_handler \<Rightarrow> int \<Rightarrow> error + int" where
  "norm_rounds h r =
     (if r < min_rounds h then Inl ValueError
      else if r > max_rounds h then Inl ValueError
      else Inr r)"

definition init_rounds :: "rounds_handler \<Rightarrow> rounds_arg \<Rightarrow> bool \<Rightarrow> error + int" where
  "init_rounds h rounds use_defaults =
     (case rounds of
        IntRounds r \<Rightarrow> norm_rounds h r
      | OtherRounds \<Rightarrow> Inl TypeError
      | NoRounds \<Rightarrow>
          if use_defaults then
            (case default_rounds h of
               None \<Rightarrow> Inl TypeError
             | Some d \<Rightarrow> norm_rounds h d)
          else Inl TypeError)"

text \<open>
  The handler \<^verbatim>\<open>d1\<close> of \<^verbatim>\<open>test_30_init_rounds\<close>, the same after
  \<^verbatim>\<open>d1.default_rounds = None\<close>, and the same with a default above \<^verbatim>\<open>max_rounds\<close>.
\<close>

definition d1 :: rounds_handler where
  "d1 = \<lparr>min_rounds = 1, max_rounds = 3, default_rounds = Some 2\<rparr>"

definition d1_no_default :: rounds_handler where
  "d1_no_default = \<lparr>min_rounds = 1, max_rounds = 3, default_rounds = None\<rparr>"

definition d1_default_7 :: rounds_handler where
  "d1_default_7 = \<lparr>min_rounds = 1, max_rounds = 3, default_rounds = Some 7\<rparr>"

section \<open>Auxiliary notions\<close>

text \<open>A value fits \<open>n\<close> bits when it lies in \<open>[0, 2 ^ n)\<close>.\<close>

definition fits :: "nat \<Rightarrow> int \<Rightarrow> bool" where
  "fits n k \<longleftrightarrow> 0 \<le> k \<and> k < 2 ^ n"

text \<open>What \<^verbatim>\<open>__init__\<close> establishes: 64 symbols, no two of them equal.\<close>

definition valid :: "Base64Engine \<Rightarrow> bool" where
  "valid e \<longleftrightarrow> length (bytemap e) = 64 \<and> distinct (bytemap e)"

text \<open>The symbol of a 6-bit value.\<close>

definition sym :: "Base64Engine \<Rightarrow> int \<Rightarrow> byte" where
  "sym e v = bytemap e ! nat v"

text \<open>The 6-bit value of a symbol of the character map.\<close>

definition val :: "Base64Engine \<Rightarrow> byte \<Rightarrow> int" where
  "val e c = (case lookup (bytemap e) c of Some v \<Rightarrow> v | None \<Rightarrow> 0)"

text \<open>
  The bits of the last symbol that carry no data. A string of length 2 mod 4 holds one
  byte in two symbols, so four bits of its last symbol are unused; a string of length
  3 mod 4 holds two bytes in three symbols, so two bits are. They are the low bits of the
  6-bit value in the big-endian layout and the high bits in the little-endian one.
\<close>

definition padding_bits :: "bool \<Rightarrow> nat \<Rightarrow> int" where
  "padding_bits b tail =
     (if tail = 2 then (if b then 15 else 60)
      else if tail = 3 then (if b then 3 else 48)
      else 0)"

section \<open>Results\<close>

subsection \<open>Bit arithmetic of the two layouts\<close>


lemma fits_take_bit: "fits n k \<longleftrightarrow> take_bit n k = k"
  by (simp add: fits_def take_bit_int_eq_self_iff)

lemma fits_bit: "fits n k \<Longrightarrow> bit k m \<Longrightarrow> m < n"
  by (metis fits_take_bit bit_take_bit_iff)

lemma fits_uint: "fits 8 (uint (w::byte))"
  by (simp add: fits_def) (use uint_bounded [of w] in simp)

lemma m63: "(63::int) = mask 6"
  by (simp add: mask_eq_exp_minus_1)

lemma m15: "(15::int) = mask 4"
  by (simp add: mask_eq_exp_minus_1)

lemma m3: "(3::int) = mask 2"
  by (simp add: mask_eq_exp_minus_1)

lemmas msk = m63 m15 m3

lemma suc2_diff: "2 \<le> n \<Longrightarrow> Suc (Suc (n - 2)) = n"
  by simp

lemma enc_little_fits:
  fixes a b c :: int
  assumes "fits 8 a" "fits 8 b" "fits 8 c"
  shows "fits 6 (a AND 63)"
    and "fits 6 (push_bit 2 (b AND 15) OR drop_bit 6 a)"
    and "fits 6 (push_bit 4 (c AND 3) OR drop_bit 4 b)"
    and "fits 6 (drop_bit 2 c)"
    and "fits 6 (drop_bit 6 a)"
    and "fits 6 (drop_bit 4 b)"
  unfolding fits_take_bit msk
  using assms [THEN fits_bit]
  apply -
  apply (rule bit_eqI; fastforce simp add: bit_simps suc2_diff le_add_diff_inverse)+
  done

lemma enc_big_fits:
  fixes a b c :: int
  assumes "fits 8 a" "fits 8 b" "fits 8 c"
  shows "fits 6 (drop_bit 2 a)"
    and "fits 6 (push_bit 4 (a AND 3) OR drop_bit 4 b)"
    and "fits 6 (push_bit 2 (b AND 15) OR drop_bit 6 c)"
    and "fits 6 (c AND 63)"
    and "fits 6 (push_bit 4 (a AND 3))"
    and "fits 6 (push_bit 2 (b AND 15))"
  unfolding fits_take_bit msk
  using assms [THEN fits_bit]
  apply -
  apply (rule bit_eqI; fastforce simp add: bit_simps suc2_diff le_add_diff_inverse)+
  done

lemma dec_little_fits:
  fixes a b c d :: int
  assumes "fits 6 a" "fits 6 b" "fits 6 c" "fits 6 d"
  shows "fits 8 (a OR push_bit 6 (b AND 3))"
    and "fits 8 (drop_bit 2 b OR push_bit 4 (c AND 15))"
    and "fits 8 (drop_bit 4 c OR push_bit 2 d)"
  unfolding fits_take_bit msk
  using assms [THEN fits_bit]
  apply -
  apply (rule bit_eqI; fastforce simp add: bit_simps suc2_diff le_add_diff_inverse)+
  done

lemma dec_big_fits:
  fixes a b c d :: int
  assumes "fits 6 a" "fits 6 b" "fits 6 c" "fits 6 d"
  shows "fits 8 (push_bit 2 a OR drop_bit 4 b)"
    and "fits 8 (push_bit 4 (b AND 15) OR drop_bit 2 c)"
    and "fits 8 (push_bit 6 (c AND 3) OR d)"
  unfolding fits_take_bit msk
  using assms [THEN fits_bit]
  apply -
  apply (rule bit_eqI; fastforce simp add: bit_simps suc2_diff le_add_diff_inverse)+
  done

lemma rt_little:
  fixes a b c :: int
  assumes "fits 8 a" "fits 8 b" "fits 8 c"
  shows "(a AND 63) OR push_bit 6 ((push_bit 2 (b AND 15) OR drop_bit 6 a) AND 3) = a"
    and "drop_bit 2 (push_bit 2 (b AND 15) OR drop_bit 6 a) OR
         push_bit 4 ((push_bit 4 (c AND 3) OR drop_bit 4 b) AND 15) = b"
    and "drop_bit 4 (push_bit 4 (c AND 3) OR drop_bit 4 b) OR push_bit 2 (drop_bit 2 c) = c"
    and "(a AND 63) OR push_bit 6 (drop_bit 6 a AND 3) = a"
    and "drop_bit 2 (push_bit 2 (b AND 15) OR drop_bit 6 a) OR
         push_bit 4 (drop_bit 4 b AND 15) = b"
  unfolding msk
  using assms [THEN fits_bit]
  apply -
  apply (rule bit_eqI; fastforce simp add: bit_simps suc2_diff le_add_diff_inverse)+
  done

lemma rt_big:
  fixes a b c :: int
  assumes "fits 8 a" "fits 8 b" "fits 8 c"
  shows "push_bit 2 (drop_bit 2 a) OR drop_bit 4 (push_bit 4 (a AND 3) OR drop_bit 4 b) = a"
    and "push_bit 4 ((push_bit 4 (a AND 3) OR drop_bit 4 b) AND 15) OR
         drop_bit 2 (push_bit 2 (b AND 15) OR drop_bit 6 c) = b"
    and "push_bit 6 ((push_bit 2 (b AND 15) OR drop_bit 6 c) AND 3) OR (c AND 63) = c"
    and "push_bit 2 (drop_bit 2 a) OR drop_bit 4 (push_bit 4 (a AND 3)) = a"
    and "push_bit 4 ((push_bit 4 (a AND 3) OR drop_bit 4 b) AND 15) OR
         drop_bit 2 (push_bit 2 (b AND 15)) = b"
  unfolding msk
  using assms [THEN fits_bit]
  apply -
  apply (rule bit_eqI; fastforce simp add: bit_simps suc2_diff le_add_diff_inverse)+
  done


lemma bind_e_simps [simp]:
  "bind_e (Inl er) f = Inl er"
  "bind_e (Inr x) f = f x"
  by (simp_all add: bind_e_def)

lemma fold_lookup_notin:
  "c \<notin> set xs \<Longrightarrow> fold (\<lambda>(idx, c) m. m(c \<mapsto> int idx)) (enumerate n xs) m c = m c"
  by (induction xs arbitrary: n m) auto

lemma fold_lookup_nth:
  "distinct xs \<Longrightarrow> i < length xs \<Longrightarrow>
     fold (\<lambda>(idx, c) m. m(c \<mapsto> int idx)) (enumerate n xs) m (xs ! i) = Some (int (n + i))"
proof (induction xs arbitrary: n m i)
  case Nil
  then show ?case by simp
next
  case (Cons x xs)
  show ?case
  proof (cases i)
    case 0
    with Cons.prems fold_lookup_notin [of x xs "Suc n" "m(x \<mapsto> int n)"]
    show ?thesis by (simp add: fun_upd_def)
  next
    case (Suc j)
    with Cons.prems Cons.IH [of j "Suc n"] show ?thesis by simp
  qed
qed

lemma lookup_nth: "distinct cm \<Longrightarrow> i < length cm \<Longrightarrow> lookup cm (cm ! i) = Some (int i)"
  using fold_lookup_nth [of cm i 0] by (simp add: lookup_def)

lemma lookup_notin: "c \<notin> set cm \<Longrightarrow> lookup cm c = None"
  by (simp add: lookup_def fold_lookup_notin)

lemma init_valid:
  assumes "Base64Engine_init cm b = Inr e"
  shows "valid e" and "big e = b"
proof -
  obtain s where s: "e = \<lparr>bytemap = s, big = b\<rparr>" "length s = 64" "length (remdups s) = 64"
    using assms
    by (auto simp: Base64Engine_init_def bind_e_def split: sum.splits if_splits)
  from s(2,3) have "distinct s"
    by (metis distinct_remdups length_remdups_eq)
  with s show "valid e" and "big e = b" by (simp_all add: valid_def)
qed

lemma encode64_fits: "valid e \<Longrightarrow> fits 6 v \<Longrightarrow> encode64 e v = Inr (sym e v)"
  by (simp add: encode64_def valid_def fits_def sym_def)

lemma decode64_sym: "valid e \<Longrightarrow> fits 6 v \<Longrightarrow> decode64 e (sym e v) = Inr v"
proof -
  assume "valid e" "fits 6 v"
  then have "nat v < length (bytemap e)" "distinct (bytemap e)" "int (nat v) = v"
    by (simp_all add: valid_def fits_def nat_less_iff)
  with lookup_nth [of "bytemap e" "nat v"] show ?thesis
    by (simp add: decode64_def sym_def)
qed

lemma decode64_notin: "c \<notin> set (bytemap e) \<Longrightarrow> decode64 e c = Inl KeyError"
  by (simp add: decode64_def lookup_notin)

lemma decode64_in:
  assumes "valid e" "c \<in> set (bytemap e)"
  shows "\<exists>v. fits 6 v \<and> decode64 e c = Inr v \<and> sym e v = c"
proof -
  from assms(2) obtain i where i: "i < length (bytemap e)" "bytemap e ! i = c"
    by (auto simp: in_set_conv_nth)
  with assms(1) have "fits 6 (int i)" "sym e (int i) = c"
    by (simp_all add: valid_def fits_def sym_def)
  with decode64_sym [OF assms(1), of "int i"] show ?thesis by metis
qed

lemma imap_encode64:
  "valid e \<Longrightarrow> list_all (fits 6) vs \<Longrightarrow> imap (encode64 e) vs = Inr (map (sym e) vs)"
  by (induction vs) (simp_all add: encode64_fits)

lemma join_byte_values_uint: "join_byte_values (map uint (s::byte list)) = Inr s"
proof -
  have "list_all (\<lambda>v. 0 \<le> v \<and> v < 256) (map uint s)"
    using fits_uint by (simp add: list_all_iff fits_def)
  moreover have "map word_of_int (map uint s) = s"
    by (simp add: map_idI)
  ultimately show ?thesis by (simp add: join_byte_values_def)
qed

lemma length3E:
  assumes "length xs = 3 * Suc n"
  obtains a b c ys where "xs = a # b # c # ys" "length ys = 3 * n"
  using assms by (cases xs; cases "tl xs"; cases "tl (tl xs)") auto

lemma little_loop_roundtrip:
  assumes "valid e"
  shows "length (xs::byte list) = 3 * n \<Longrightarrow>
    \<exists>gen. encode_bytes_little_loop (\<lambda>b. Inr (uint b)) n (xs @ r) = Inr (gen, r) \<and>
          list_all (fits 6) gen \<and> length gen = 4 * n \<and>
          (\<forall>r'. decode_bytes_little_loop (decode64 e) n (map (sym e) gen @ r') =
                  Inr (map uint xs, r'))"
proof (induction n arbitrary: xs)
  case 0
  then show ?case by simp
next
  case (Suc n)
  from Suc.prems obtain a b c ys where xs: "xs = a # b # c # ys" and ys: "length ys = 3 * n"
    by (rule length3E)
  from Suc.IH [OF ys] obtain gen where gen:
    "encode_bytes_little_loop (\<lambda>b. Inr (uint b)) n (ys @ r) = Inr (gen, r)"
    "list_all (fits 6) gen" "length gen = 4 * n"
    "\<And>r'. decode_bytes_little_loop (decode64 e) n (map (sym e) gen @ r') = Inr (map uint ys, r')"
    by blast
  note F = enc_little_fits [OF fits_uint [of a] fits_uint [of b] fits_uint [of c]]
  note R = rt_little [OF fits_uint [of a] fits_uint [of b] fits_uint [of c]]
  show ?case
    by (rule exI [of _ "[uint a AND 0x3f,
             push_bit 2 (uint b AND 0x0f) OR drop_bit 6 (uint a),
             push_bit 4 (uint c AND 0x03) OR drop_bit 4 (uint b),
             drop_bit 2 (uint c)] @ gen"])
       (simp add: xs gen F R decode64_sym [OF assms]
          del: push_bit_and push_bit_or drop_bit_and drop_bit_or)
qed


lemmas shift_simps = push_bit_and push_bit_or drop_bit_and drop_bit_or

lemma split_chunks3:
  obtains xs t where "(s::'a list) = xs @ t" "length xs = 3 * (length s div 3)"
    "length t = length s mod 3"
proof
  show "s = take (3 * (length s div 3)) s @ drop (3 * (length s div 3)) s" by simp
  show "length (take (3 * (length s div 3)) s) = 3 * (length s div 3)" by simp
  show "length (drop (3 * (length s div 3)) s) = length s mod 3"
    by (simp add: minus_mult_div_eq_mod)
qed

lemma tail3_cases:
  assumes "length t = k mod 3"
  obtains "t = []" "k mod 3 = 0"
  | a where "t = [a]" "k mod 3 = 1"
  | a b where "t = [a, b]" "k mod 3 = 2"
proof -
  have "k mod 3 < 3" by simp
  then consider "k mod 3 = 0" | "k mod 3 = 1" | "k mod 3 = 2" by linarith
  then show ?thesis
  proof cases
    case 1
    with assms that(1) show ?thesis by simp
  next
    case 2
    with assms obtain a where "t = [a]" by (cases t) auto
    with 2 that(2) show ?thesis by simp
  next
    case 3
    with assms obtain a b where "t = [a, b]"
      by (cases t; cases "tl t") auto
    with 3 that(3) show ?thesis by simp
  qed
qed

lemma len4:
  fixes n :: nat
  shows "(4 * n + 2) div 4 = n" "(4 * n + 2) mod 4 = 2"
    and "(4 * n + 3) div 4 = n" "(4 * n + 3) mod 4 = 3"
  by presburger+

lemma little_roundtrip:
  assumes "valid e"
  shows "\<exists>gen. encode_bytes_little (\<lambda>b. Inr (uint b)) (s::byte list) (length s div 3) (length s mod 3)
             = Inr gen \<and>
          list_all (fits 6) gen \<and> length gen mod 4 \<noteq> 1 \<and>
          decode_bytes_little (decode64 e) (map (sym e) gen) (length gen div 4) (length gen mod 4)
             = Inr (map uint s)"
proof -
  obtain xs t where s: "s = xs @ t" and xs: "length xs = 3 * (length s div 3)"
    and t: "length t = length s mod 3"
    by (rule split_chunks3)
  from little_loop_roundtrip [OF assms xs, of t] obtain gen where gen:
    "encode_bytes_little_loop (\<lambda>b. Inr (uint b)) (length s div 3) (xs @ t) = Inr (gen, t)"
    "list_all (fits 6) gen" "length gen = 4 * (length s div 3)"
    "\<And>r'. decode_bytes_little_loop (decode64 e) (length s div 3) (map (sym e) gen @ r') =
            Inr (map uint xs, r')"
    by blast
  have L: "encode_bytes_little_loop (\<lambda>b. Inr (uint b)) (length s div 3) s = Inr (gen, t)"
    using gen(1) by (simp only: s [symmetric])
  from t show ?thesis
  proof (cases rule: tail3_cases)
    case 1
    have "encode_bytes_little (\<lambda>b. Inr (uint b)) s (length s div 3) (length s mod 3) = Inr gen"
      using L 1 by (simp add: encode_bytes_little_def)
    moreover have "decode_bytes_little (decode64 e) (map (sym e) gen) (length gen div 4)
        (length gen mod 4) = Inr (map uint s)"
      using gen(4) [of "[]"] 1 by (simp add: decode_bytes_little_def gen(3) s)
    ultimately show ?thesis using gen(2,3) by simp
  next
    case (2 a)
    let ?g = "gen @ [uint a AND 0x3f, drop_bit 6 (uint a)]"
    note F = enc_little_fits [OF fits_uint [of a] fits_uint [of a] fits_uint [of a]]
    note R = rt_little [OF fits_uint [of a] fits_uint [of a] fits_uint [of a]]
    have "length ?g = 4 * (length s div 3) + 2" by (simp add: gen(3))
    then have len: "length ?g div 4 = length s div 3" "length ?g mod 4 = 2"
      by (simp_all only: len4)
    have "encode_bytes_little (\<lambda>b. Inr (uint b)) s (length s div 3) (length s mod 3) = Inr ?g"
      using L 2 by (simp add: encode_bytes_little_def)
    moreover have "decode_bytes_little (decode64 e) (map (sym e) ?g) (length ?g div 4)
        (length ?g mod 4) = Inr (map uint s)"
      unfolding len using gen(4) [of "map (sym e) [uint a AND 0x3f, drop_bit 6 (uint a)]"] 2
      by (simp add: decode_bytes_little_def s F R decode64_sym [OF assms] del: shift_simps)
    moreover have "list_all (fits 6) ?g" using gen(2) F by simp
    ultimately show ?thesis using len by (intro exI [of _ ?g]) simp
  next
    case (3 a b)
    let ?g = "gen @ [uint a AND 0x3f, push_bit 2 (uint b AND 0x0f) OR drop_bit 6 (uint a),
                     drop_bit 4 (uint b)]"
    note F = enc_little_fits [OF fits_uint [of a] fits_uint [of b] fits_uint [of a]]
    note R = rt_little [OF fits_uint [of a] fits_uint [of b] fits_uint [of a]]
    have "length ?g = 4 * (length s div 3) + 3" by (simp add: gen(3))
    then have len: "length ?g div 4 = length s div 3" "length ?g mod 4 = 3"
      by (simp_all only: len4)
    have "encode_bytes_little (\<lambda>b. Inr (uint b)) s (length s div 3) (length s mod 3) = Inr ?g"
      using L 3 by (simp add: encode_bytes_little_def del: shift_simps)
    moreover have "decode_bytes_little (decode64 e) (map (sym e) ?g) (length ?g div 4)
        (length ?g mod 4) = Inr (map uint s)"
      unfolding len
      using gen(4) [of "map (sym e) [uint a AND 0x3f,
            push_bit 2 (uint b AND 0x0f) OR drop_bit 6 (uint a), drop_bit 4 (uint b)]"] 3
      by (simp add: decode_bytes_little_def s F R decode64_sym [OF assms] del: shift_simps)
    moreover have "list_all (fits 6) ?g" using gen(2) F by (simp del: shift_simps)
    ultimately show ?thesis using len by (intro exI [of _ ?g]) simp
  qed
qed


lemma big_loop_roundtrip:
  assumes "valid e"
  shows "length (xs::byte list) = 3 * n \<Longrightarrow>
    \<exists>gen. encode_bytes_big_loop (\<lambda>b. Inr (uint b)) n (xs @ r) = Inr (gen, r) \<and>
          list_all (fits 6) gen \<and> length gen = 4 * n \<and>
          (\<forall>r'. decode_bytes_big_loop (decode64 e) n (map (sym e) gen @ r') =
                  Inr (map uint xs, r'))"
proof (induction n arbitrary: xs)
  case 0
  then show ?case by simp
next
  case (Suc n)
  from Suc.prems obtain a b c ys where xs: "xs = a # b # c # ys" and ys: "length ys = 3 * n"
    by (rule length3E)
  from Suc.IH [OF ys] obtain gen where gen:
    "encode_bytes_big_loop (\<lambda>b. Inr (uint b)) n (ys @ r) = Inr (gen, r)"
    "list_all (fits 6) gen" "length gen = 4 * n"
    "\<And>r'. decode_bytes_big_loop (decode64 e) n (map (sym e) gen @ r') = Inr (map uint ys, r')"
    by blast
  note F = enc_big_fits [OF fits_uint [of a] fits_uint [of b] fits_uint [of c]]
  note R = rt_big [OF fits_uint [of a] fits_uint [of b] fits_uint [of c]]
  show ?case
    by (rule exI [of _ "[drop_bit 2 (uint a),
             push_bit 4 (uint a AND 0x03) OR drop_bit 4 (uint b),
             push_bit 2 (uint b AND 0x0f) OR drop_bit 6 (uint c),
             uint c AND 0x3f] @ gen"])
       (simp add: xs gen F R decode64_sym [OF assms] del: shift_simps)
qed

lemma big_roundtrip:
  assumes "valid e"
  shows "\<exists>gen. encode_bytes_big (\<lambda>b. Inr (uint b)) (s::byte list) (length s div 3) (length s mod 3)
             = Inr gen \<and>
          list_all (fits 6) gen \<and> length gen mod 4 \<noteq> 1 \<and>
          decode_bytes_big (decode64 e) (map (sym e) gen) (length gen div 4) (length gen mod 4)
             = Inr (map uint s)"
proof -
  obtain xs t where s: "s = xs @ t" and xs: "length xs = 3 * (length s div 3)"
    and t: "length t = length s mod 3"
    by (rule split_chunks3)
  from big_loop_roundtrip [OF assms xs, of t] obtain gen where gen:
    "encode_bytes_big_loop (\<lambda>b. Inr (uint b)) (length s div 3) (xs @ t) = Inr (gen, t)"
    "list_all (fits 6) gen" "length gen = 4 * (length s div 3)"
    "\<And>r'. decode_bytes_big_loop (decode64 e) (length s div 3) (map (sym e) gen @ r') =
            Inr (map uint xs, r')"
    by blast
  have L: "encode_bytes_big_loop (\<lambda>b. Inr (uint b)) (length s div 3) s = Inr (gen, t)"
    using gen(1) by (simp only: s [symmetric])
  from t show ?thesis
  proof (cases rule: tail3_cases)
    case 1
    have "encode_bytes_big (\<lambda>b. Inr (uint b)) s (length s div 3) (length s mod 3) = Inr gen"
      using L 1 by (simp add: encode_bytes_big_def)
    moreover have "decode_bytes_big (decode64 e) (map (sym e) gen) (length gen div 4)
        (length gen mod 4) = Inr (map uint s)"
      using gen(4) [of "[]"] 1 by (simp add: decode_bytes_big_def gen(3) s)
    ultimately show ?thesis using gen(2,3) by simp
  next
    case (2 a)
    let ?g = "gen @ [drop_bit 2 (uint a), push_bit 4 (uint a AND 0x03)]"
    note F = enc_big_fits [OF fits_uint [of a] fits_uint [of a] fits_uint [of a]]
    note R = rt_big [OF fits_uint [of a] fits_uint [of a] fits_uint [of a]]
    have "length ?g = 4 * (length s div 3) + 2" by (simp add: gen(3))
    then have len: "length ?g div 4 = length s div 3" "length ?g mod 4 = 2"
      by (simp_all only: len4)
    have "encode_bytes_big (\<lambda>b. Inr (uint b)) s (length s div 3) (length s mod 3) = Inr ?g"
      using L 2 by (simp add: encode_bytes_big_def del: shift_simps)
    moreover have "decode_bytes_big (decode64 e) (map (sym e) ?g) (length ?g div 4)
        (length ?g mod 4) = Inr (map uint s)"
      unfolding len
      using gen(4) [of "map (sym e) [drop_bit 2 (uint a), push_bit 4 (uint a AND 0x03)]"] 2
      by (simp add: decode_bytes_big_def s F R decode64_sym [OF assms] del: shift_simps)
    moreover have "list_all (fits 6) ?g" using gen(2) F by (simp del: shift_simps)
    ultimately show ?thesis using len by (intro exI [of _ ?g]) simp
  next
    case (3 a b)
    let ?g = "gen @ [drop_bit 2 (uint a), push_bit 4 (uint a AND 0x03) OR drop_bit 4 (uint b),
                     push_bit 2 (uint b AND 0x0f)]"
    note F = enc_big_fits [OF fits_uint [of a] fits_uint [of b] fits_uint [of a]]
    note R = rt_big [OF fits_uint [of a] fits_uint [of b] fits_uint [of a]]
    have "length ?g = 4 * (length s div 3) + 3" by (simp add: gen(3))
    then have len: "length ?g div 4 = length s div 3" "length ?g mod 4 = 3"
      by (simp_all only: len4)
    have "encode_bytes_big (\<lambda>b. Inr (uint b)) s (length s div 3) (length s mod 3) = Inr ?g"
      using L 3 by (simp add: encode_bytes_big_def del: shift_simps)
    moreover have "decode_bytes_big (decode64 e) (map (sym e) ?g) (length ?g div 4)
        (length ?g mod 4) = Inr (map uint s)"
      unfolding len
      using gen(4) [of "map (sym e) [drop_bit 2 (uint a),
            push_bit 4 (uint a AND 0x03) OR drop_bit 4 (uint b), push_bit 2 (uint b AND 0x0f)]"] 3
      by (simp add: decode_bytes_big_def s F R decode64_sym [OF assms] del: shift_simps)
    moreover have "list_all (fits 6) ?g" using gen(2) F by (simp del: shift_simps)
    ultimately show ?thesis using len by (intro exI [of _ ?g]) simp
  qed
qed

lemma generator_roundtrip:
  assumes "valid e"
  shows "\<exists>gen. (if big e then encode_bytes_big else encode_bytes_little)
              (\<lambda>b. Inr (uint b)) (s::byte list) (length s div 3) (length s mod 3) = Inr gen \<and>
          list_all (fits 6) gen \<and> length gen mod 4 \<noteq> 1 \<and>
          (if big e then decode_bytes_big else decode_bytes_little)
              (decode64 e) (map (sym e) gen) (length gen div 4) (length gen mod 4)
             = Inr (map uint s)"
  using little_roundtrip [OF assms, of s] big_roundtrip [OF assms, of s] by simp

lemma base64_engine:
  "Base64Engine_init (PyUnicode BASE64_CHARS) b =
     Inr \<lparr>bytemap = map of_nat BASE64_CHARS, big = b\<rparr>"
  by (simp add: BASE64_CHARS_def Base64Engine_init_def encode_latin1_def)

lemma hash64_engine:
  "Base64Engine_init (PyUnicode HASH64_CHARS) b =
     Inr \<lparr>bytemap = map of_nat HASH64_CHARS, big = b\<rparr>"
  by (simp add: HASH64_CHARS_def Base64Engine_init_def encode_latin1_def)

subsection \<open>Round trip of byte strings\<close>

text \<open>
  C1. For an engine built from a valid character map, with either endianness, encoding a
  byte string succeeds and decoding the result gives the byte string back.
\<close>

theorem encode_decode_roundtrip:
  assumes "Base64Engine_init cm b = Inr e"
  shows "\<exists>t. encode_bytes e (PyBytes s) = Inr t \<and> decode_bytes e (PyBytes t) = Inr s"
proof -
  have v: "valid e" using assms by (rule init_valid)
  from generator_roundtrip [OF v, of s] obtain gen where gen:
    "(if big e then encode_bytes_big else encode_bytes_little)
        (\<lambda>b. Inr (uint b)) s (length s div 3) (length s mod 3) = Inr gen"
    "list_all (fits 6) gen" "length gen mod 4 \<noteq> 1"
    "(if big e then decode_bytes_big else decode_bytes_little)
        (decode64 e) (map (sym e) gen) (length gen div 4) (length gen mod 4) = Inr (map uint s)"
    by blast
  have "encode_bytes e (PyBytes s) = Inr (map (sym e) gen)"
    using gen(1) by (simp add: encode_bytes_def imap_encode64 [OF v gen(2)])
  moreover have "decode_bytes e (PyBytes (map (sym e) gen)) = Inr s"
    using gen(3,4) by (simp add: decode_bytes_def join_byte_values_uint)
  ultimately show ?thesis by blast
qed

theorem encode_decode_roundtrip_witness:
  "Base64Engine_init (PyUnicode BASE64_CHARS) True =
     Inr \<lparr>bytemap = map of_nat BASE64_CHARS, big = True\<rparr> \<and>
   (\<exists>t. encode_bytes \<lparr>bytemap = map of_nat BASE64_CHARS, big = True\<rparr>
           (PyBytes (map of_char ''Man'')) = Inr t \<and>
        decode_bytes \<lparr>bytemap = map of_nat BASE64_CHARS, big = True\<rparr> (PyBytes t) =
           Inr (map of_char ''Man''))"
  using encode_decode_roundtrip [OF base64_engine [of True], of "map of_char ''Man''"]
    base64_engine [of True]
  by simp

subsection \<open>Values of the generators\<close>

text \<open>
  C10. On every byte string both generators return, and every value they yield lies in
  \<open>[0, 64)\<close>; so for an engine with a valid character map no lookup of
  \<^verbatim>\<open>encode_bytes\<close> raises \<^verbatim>\<open>IndexError\<close>.
\<close>

theorem encode_values_in_range:
  "\<exists>gen. (if b then encode_bytes_big else encode_bytes_little)
            (\<lambda>x. Inr (uint x)) (s::byte list) (length s div 3) (length s mod 3) = Inr gen \<and>
         list_all (\<lambda>v. 0 \<le> v \<and> v < 64) gen \<and>
         (Base64Engine_init cm b = Inr e \<longrightarrow>
            list_all (\<lambda>v. encode64 e v \<noteq> Inl IndexError) gen \<and>
            encode_bytes e (PyBytes s) \<noteq> Inl IndexError)"
proof -
  let ?e0 = "\<lparr>bytemap = map of_nat HASH64_CHARS, big = b\<rparr>"
  have v0: "valid ?e0" using hash64_engine [of b] by (rule init_valid)
  from generator_roundtrip [OF v0, of s] obtain gen where gen:
    "(if b then encode_bytes_big else encode_bytes_little)
        (\<lambda>x. Inr (uint x)) s (length s div 3) (length s mod 3) = Inr gen"
    "list_all (fits 6) gen"
    by auto
  have rng: "list_all (\<lambda>v. 0 \<le> v \<and> v < 64) gen"
    using gen(2) by (simp add: fits_def list_all_iff)
  have "list_all (\<lambda>v. encode64 e v \<noteq> Inl IndexError) gen \<and>
        encode_bytes e (PyBytes s) \<noteq> Inl IndexError"
    if init: "Base64Engine_init cm b = Inr e"
  proof -
    have v: "valid e" and b: "big e = b" using init by (rule init_valid)+
    have "list_all (\<lambda>v. encode64 e v \<noteq> Inl IndexError) gen"
      using gen(2) by (simp add: list_all_iff encode64_fits [OF v])
    moreover have "encode_bytes e (PyBytes s) = Inr (map (sym e) gen)"
      using gen(1) b by (simp add: encode_bytes_def imap_encode64 [OF v gen(2)])
    ultimately show ?thesis by simp
  qed
  with gen(1) rng show ?thesis by blast
qed

theorem encode_values_in_range_witness:
  "Base64Engine_init (PyUnicode HASH64_CHARS) False =
     Inr \<lparr>bytemap = map of_nat HASH64_CHARS, big = False\<rparr> \<and>
   (\<exists>gen. encode_bytes_little (\<lambda>x. Inr (uint x)) (map of_char ''Man'' :: byte list) 1 0 = Inr gen \<and>
      list_all (\<lambda>v. 0 \<le> v \<and> v < 64) gen \<and>
      list_all (\<lambda>v. encode64 \<lparr>bytemap = map of_nat HASH64_CHARS, big = False\<rparr> v \<noteq> Inl IndexError) gen \<and>
      encode_bytes \<lparr>bytemap = map of_nat HASH64_CHARS, big = False\<rparr> (PyBytes (map of_char ''Man''))
        \<noteq> Inl IndexError)"
  using encode_values_in_range [of False "map of_char ''Man''" "PyUnicode HASH64_CHARS"
      "\<lparr>bytemap = map of_nat HASH64_CHARS, big = False\<rparr>"]
    hash64_engine [of False]
  by simp

subsection \<open>Errors of decoding\<close>

lemma decode64_if:
  assumes "valid e"
  shows "decode64 e c = (if c \<in> set (bytemap e) then Inr (val e c) else Inl KeyError)"
proof (cases "c \<in> set (bytemap e)")
  case True
  from decode64_in [OF assms True] obtain v where "decode64 e c = Inr v" by blast
  then show ?thesis using True
    by (auto simp: decode64_def val_def split: option.splits)
next
  case False
  then show ?thesis by (simp add: decode64_notin)
qed

lemma val_fits:
  assumes "valid e" "c \<in> set (bytemap e)"
  shows "fits 6 (val e c)"
proof -
  from decode64_in [OF assms] obtain v where "fits 6 v" "decode64 e c = Inr v" by blast
  then show ?thesis using decode64_if [OF assms(1), of c] assms(2) by simp
qed

lemma length4E:
  assumes "4 * Suc n \<le> length xs"
  obtains a b c d ys where "xs = a # b # c # d # ys" "4 * n \<le> length ys"
  using assms by (cases xs; cases "tl xs"; cases "tl (tl xs)"; cases "tl (tl (tl xs))") auto

lemma take_drop4:
  "take (4 * Suc n) (a # b # c # d # r) = a # b # c # d # take (4 * n) r"
  "drop (4 * Suc n) (a # b # c # d # r) = drop (4 * n) r"
proof -
  have "4 * Suc n = Suc (Suc (Suc (Suc (4 * n))))" by simp
  then show "take (4 * Suc n) (a # b # c # d # r) = a # b # c # d # take (4 * n) r"
    and "drop (4 * Suc n) (a # b # c # d # r) = drop (4 * n) r"
    by (simp_all only: take_Suc_Cons drop_Suc_Cons)
qed

lemma decode_little_loop_total:
  assumes v: "valid e"
  shows "4 * n \<le> length it \<Longrightarrow>
    (if list_all (\<lambda>c. c \<in> set (bytemap e)) (take (4 * n) it)
     then \<exists>out. decode_bytes_little_loop (decode64 e) n it = Inr (out, drop (4 * n) it) \<and>
                list_all (fits 8) out
     else decode_bytes_little_loop (decode64 e) n it = Inl KeyError)"
proof (induction n arbitrary: it)
  case 0
  then show ?case by simp
next
  case (Suc n)
  from Suc.prems obtain a b c d ys where it: "it = a # b # c # d # ys" and ys: "4 * n \<le> length ys"
    by (rule length4E)
  note IH = Suc.IH [OF ys]
  show ?case
  proof (cases "a \<in> set (bytemap e) \<and> b \<in> set (bytemap e) \<and> c \<in> set (bytemap e) \<and>
                d \<in> set (bytemap e)")
    case False
    then show ?thesis
      unfolding it take_drop4 by (auto simp: decode64_if [OF v])
  next
    case True
    note F = dec_little_fits [OF val_fits [OF v, of a] val_fits [OF v, of b]
        val_fits [OF v, of c] val_fits [OF v, of d]]
    show ?thesis
    proof (cases "list_all (\<lambda>c. c \<in> set (bytemap e)) (take (4 * n) ys)")
      case good: True
      with IH obtain out where
        "decode_bytes_little_loop (decode64 e) n ys = Inr (out, drop (4 * n) ys)"
        "list_all (fits 8) out" by auto
      with True good F show ?thesis
        unfolding it take_drop4 by (simp add: decode64_if [OF v] del: shift_simps)
    next
      case bad: False
      with IH have "decode_bytes_little_loop (decode64 e) n ys = Inl KeyError" by simp
      with True bad show ?thesis
        unfolding it take_drop4 by (simp add: decode64_if [OF v] del: shift_simps)
    qed
  qed
qed


lemma tail4_cases:
  assumes "length t = k mod 4" "k mod 4 \<noteq> 1"
  obtains "t = []" "k mod 4 = 0"
  | a b where "t = [a, b]" "k mod 4 = 2"
  | a b c where "t = [a, b, c]" "k mod 4 = 3"
proof -
  have "k mod 4 < 4" by simp
  with assms(2) consider "k mod 4 = 0" | "k mod 4 = 2" | "k mod 4 = 3" by linarith
  then show ?thesis
  proof cases
    case 1
    with assms that(1) show ?thesis by simp
  next
    case 2
    with assms obtain a b where "t = [a, b]"
      by (cases t; cases "tl t") auto
    with 2 that(2) show ?thesis by simp
  next
    case 3
    with assms obtain a b c where "t = [a, b, c]"
      by (cases t; cases "tl t"; cases "tl (tl t)") auto
    with 3 that(3) show ?thesis by simp
  qed
qed

lemma decode_little_total:
  assumes v: "valid e" and len: "length s mod 4 \<noteq> 1"
  shows "if list_all (\<lambda>c. c \<in> set (bytemap e)) s
     then \<exists>out. decode_bytes_little (decode64 e) s (length s div 4) (length s mod 4) = Inr out \<and>
                list_all (fits 8) out
     else decode_bytes_little (decode64 e) s (length s div 4) (length s mod 4) = Inl KeyError"
proof -
  let ?n = "length s div 4"
  let ?A = "\<lambda>c. c \<in> set (bytemap e)"
  let ?t = "drop (4 * ?n) s"
  have n: "4 * ?n \<le> length s" by simp
  have t: "length ?t = length s mod 4" by (simp add: minus_mult_div_eq_mod)
  have all: "list_all ?A s \<longleftrightarrow> list_all ?A (take (4 * ?n) s) \<and> list_all ?A ?t"
    by (metis append_take_drop_id list_all_append)
  note L = decode_little_loop_total [OF v n]
  show ?thesis
  proof (cases "list_all ?A (take (4 * ?n) s)")
    case False
    with L have "decode_bytes_little_loop (decode64 e) ?n s = Inl KeyError" by simp
    with False all show ?thesis by (simp add: decode_bytes_little_def)
  next
    case True
    with L obtain out where out:
      "decode_bytes_little_loop (decode64 e) ?n s = Inr (out, ?t)" "list_all (fits 8) out"
      by auto
    from t len show ?thesis
    proof (cases rule: tail4_cases)
      case 1
      with out True all show ?thesis by (simp add: decode_bytes_little_def)
    next
      case (2 a b)
      show ?thesis
      proof (cases "a \<in> set (bytemap e) \<and> b \<in> set (bytemap e)")
        case ab: True
        note F = dec_little_fits [OF val_fits [OF v, of a] val_fits [OF v, of b]
            val_fits [OF v, of a] val_fits [OF v, of a]]
        from ab 2 out True all F show ?thesis
          by (simp add: decode_bytes_little_def decode64_if [OF v] del: shift_simps)
      next
        case False
        with 2 out True all show ?thesis
          by (auto simp: decode_bytes_little_def decode64_if [OF v] simp del: shift_simps)
      qed
    next
      case (3 a b c)
      show ?thesis
      proof (cases "a \<in> set (bytemap e) \<and> b \<in> set (bytemap e) \<and> c \<in> set (bytemap e)")
        case abc: True
        note F = dec_little_fits [OF val_fits [OF v, of a] val_fits [OF v, of b]
            val_fits [OF v, of c] val_fits [OF v, of a]]
        from abc 3 out True all F show ?thesis
          by (simp add: decode_bytes_little_def decode64_if [OF v] del: shift_simps)
      next
        case False
        with 3 out True all show ?thesis
          by (auto simp: decode_bytes_little_def decode64_if [OF v] simp del: shift_simps)
      qed
    qed
  qed
qed

lemma decode_big_loop_total:
  assumes v: "valid e"
  shows "4 * n \<le> length it \<Longrightarrow>
    (if list_all (\<lambda>c. c \<in> set (bytemap e)) (take (4 * n) it)
     then \<exists>out. decode_bytes_big_loop (decode64 e) n it = Inr (out, drop (4 * n) it) \<and>
                list_all (fits 8) out
     else decode_bytes_big_loop (decode64 e) n it = Inl KeyError)"
proof (induction n arbitrary: it)
  case 0
  then show ?case by simp
next
  case (Suc n)
  from Suc.prems obtain a b c d ys where it: "it = a # b # c # d # ys" and ys: "4 * n \<le> length ys"
    by (rule length4E)
  note IH = Suc.IH [OF ys]
  show ?case
  proof (cases "a \<in> set (bytemap e) \<and> b \<in> set (bytemap e) \<and> c \<in> set (bytemap e) \<and>
                d \<in> set (bytemap e)")
    case False
    then show ?thesis
      unfolding it take_drop4 by (auto simp: decode64_if [OF v])
  next
    case True
    note F = dec_big_fits [OF val_fits [OF v, of a] val_fits [OF v, of b]
        val_fits [OF v, of c] val_fits [OF v, of d]]
    show ?thesis
    proof (cases "list_all (\<lambda>c. c \<in> set (bytemap e)) (take (4 * n) ys)")
      case good: True
      with IH obtain out where
        "decode_bytes_big_loop (decode64 e) n ys = Inr (out, drop (4 * n) ys)"
        "list_all (fits 8) out" by auto
      with True good F show ?thesis
        unfolding it take_drop4 by (simp add: decode64_if [OF v] del: shift_simps)
    next
      case bad: False
      with IH have "decode_bytes_big_loop (decode64 e) n ys = Inl KeyError" by simp
      with True bad show ?thesis
        unfolding it take_drop4 by (simp add: decode64_if [OF v] del: shift_simps)
    qed
  qed
qed


lemma decode_big_total:
  assumes v: "valid e" and len: "length s mod 4 \<noteq> 1"
  shows "if list_all (\<lambda>c. c \<in> set (bytemap e)) s
     then \<exists>out. decode_bytes_big (decode64 e) s (length s div 4) (length s mod 4) = Inr out \<and>
                list_all (fits 8) out
     else decode_bytes_big (decode64 e) s (length s div 4) (length s mod 4) = Inl KeyError"
proof -
  let ?n = "length s div 4"
  let ?A = "\<lambda>c. c \<in> set (bytemap e)"
  let ?t = "drop (4 * ?n) s"
  have n: "4 * ?n \<le> length s" by simp
  have t: "length ?t = length s mod 4" by (simp add: minus_mult_div_eq_mod)
  have all: "list_all ?A s \<longleftrightarrow> list_all ?A (take (4 * ?n) s) \<and> list_all ?A ?t"
    by (metis append_take_drop_id list_all_append)
  note L = decode_big_loop_total [OF v n]
  show ?thesis
  proof (cases "list_all ?A (take (4 * ?n) s)")
    case False
    with L have "decode_bytes_big_loop (decode64 e) ?n s = Inl KeyError" by simp
    with False all show ?thesis by (simp add: decode_bytes_big_def)
  next
    case True
    with L obtain out where out:
      "decode_bytes_big_loop (decode64 e) ?n s = Inr (out, ?t)" "list_all (fits 8) out"
      by auto
    from t len show ?thesis
    proof (cases rule: tail4_cases)
      case 1
      with out True all show ?thesis by (simp add: decode_bytes_big_def)
    next
      case (2 a b)
      show ?thesis
      proof (cases "a \<in> set (bytemap e) \<and> b \<in> set (bytemap e)")
        case ab: True
        note F = dec_big_fits [OF val_fits [OF v, of a] val_fits [OF v, of b]
            val_fits [OF v, of a] val_fits [OF v, of a]]
        from ab 2 out True all F show ?thesis
          by (simp add: decode_bytes_big_def decode64_if [OF v] del: shift_simps)
      next
        case False
        with 2 out True all show ?thesis
          by (auto simp: decode_bytes_big_def decode64_if [OF v] simp del: shift_simps)
      qed
    next
      case (3 a b c)
      show ?thesis
      proof (cases "a \<in> set (bytemap e) \<and> b \<in> set (bytemap e) \<and> c \<in> set (bytemap e)")
        case abc: True
        note F = dec_big_fits [OF val_fits [OF v, of a] val_fits [OF v, of b]
            val_fits [OF v, of c] val_fits [OF v, of a]]
        from abc 3 out True all F show ?thesis
          by (simp add: decode_bytes_big_def decode64_if [OF v] del: shift_simps)
      next
        case False
        with 3 out True all show ?thesis
          by (auto simp: decode_bytes_big_def decode64_if [OF v] simp del: shift_simps)
      qed
    qed
  qed
qed

lemma join_byte_values_fits:
  "list_all (fits 8) out \<Longrightarrow> join_byte_values out = Inr (map word_of_int out)"
  by (simp add: join_byte_values_def fits_def list_all_iff)

text \<open>
  C3. For an engine with a valid character map, decoding a byte string raises
  \<^verbatim>\<open>ValueError\<close> when its length is 1 mod 4 or when it holds a symbol that is not in the
  character map; every other byte string, made of symbols of the map, decodes.
\<close>

theorem decode_bytes_errors:
  assumes "Base64Engine_init cm b = Inr e"
  shows "(length s mod 4 = 1 \<or> \<not> set s \<subseteq> set (bytemap e) \<longrightarrow>
            decode_bytes e (PyBytes s) = Inl ValueError) \<and>
         (length s mod 4 \<noteq> 1 \<and> set s \<subseteq> set (bytemap e) \<longrightarrow>
            (\<exists>d. decode_bytes e (PyBytes s) = Inr d))"
proof -
  have v: "valid e" using assms by (rule init_valid)
  let ?dec = "(if big e then decode_bytes_big else decode_bytes_little)
                (decode64 e) s (length s div 4) (length s mod 4)"
  have A: "list_all (\<lambda>c. c \<in> set (bytemap e)) s \<longleftrightarrow> set s \<subseteq> set (bytemap e)"
    by (auto simp: list_all_iff)
  show ?thesis
  proof (cases "length s mod 4 = 1")
    case True
    then show ?thesis by (simp add: decode_bytes_def)
  next
    case False
    have T: "if set s \<subseteq> set (bytemap e)
       then \<exists>out. ?dec = Inr out \<and> list_all (fits 8) out else ?dec = Inl KeyError"
      using decode_little_total [OF v False] decode_big_total [OF v False]
      unfolding A by (cases "big e") simp_all
    show ?thesis
    proof (cases "set s \<subseteq> set (bytemap e)")
      case True
      with T obtain out where "?dec = Inr out" "list_all (fits 8) out" by auto
      with True False show ?thesis
        by (simp add: decode_bytes_def join_byte_values_fits)
    next
      case bad: False
      with T have "?dec = Inl KeyError" by simp
      with bad False show ?thesis by (simp add: decode_bytes_def)
    qed
  qed
qed

theorem decode_bytes_errors_witness:
  "Base64Engine_init (PyUnicode BASE64_CHARS) True =
     Inr \<lparr>bytemap = map of_nat BASE64_CHARS, big = True\<rparr> \<and>
   (length (map of_char ''TW!'' :: byte list) mod 4 = 1 \<or>
    \<not> set (map of_char ''TW!'') \<subseteq> set (map of_nat BASE64_CHARS :: byte list)) \<and>
   decode_bytes \<lparr>bytemap = map of_nat BASE64_CHARS, big = True\<rparr> (PyBytes (map of_char ''TW!'')) =
     Inl ValueError \<and>
   length (map of_char ''TWFu'' :: byte list) mod 4 \<noteq> 1 \<and>
   set (map of_char ''TWFu'') \<subseteq> set (map of_nat BASE64_CHARS :: byte list) \<and>
   (\<exists>d. decode_bytes \<lparr>bytemap = map of_nat BASE64_CHARS, big = True\<rparr>
          (PyBytes (map of_char ''TWFu'')) = Inr d)"
proof -
  let ?e = "\<lparr>bytemap = map of_nat BASE64_CHARS, big = True\<rparr>"
  have bad: "\<not> set (map of_char ''TW!'') \<subseteq> set (map of_nat BASE64_CHARS :: byte list)"
    by (simp add: BASE64_CHARS_def)
  have good: "set (map of_char ''TWFu'') \<subseteq> set (map of_nat BASE64_CHARS :: byte list)"
    by (simp add: BASE64_CHARS_def)
  have len: "length (map of_char ''TWFu'' :: byte list) mod 4 \<noteq> 1"
    by simp
  from decode_bytes_errors [OF base64_engine [of True], of "map of_char ''TW!''"]
    decode_bytes_errors [OF base64_engine [of True], of "map of_char ''TWFu''"]
    bad good len base64_engine [of True]
  show ?thesis by simp
qed

subsection \<open>Empty input\<close>

text \<open>
  C5, as amended. Encoding the empty byte string gives the empty byte string, and decoding
  the empty byte string gives the empty byte string; the empty unicode string \<^verbatim>\<open>""\<close> is
  not a byte string, and decoding it raises \<^verbatim>\<open>TypeError\<close>.
\<close>

theorem codec_empty_bytes:
  "encode_bytes e (PyBytes []) = Inr [] \<and>
   decode_bytes e (PyBytes []) = Inr [] \<and>
   decode_bytes e (PyUnicode []) = Inl TypeError"
  by (simp add: encode_bytes_def decode_bytes_def encode_bytes_little_def encode_bytes_big_def
      decode_bytes_little_def decode_bytes_big_def join_byte_values_def)

text \<open>
  C5 as stated fails: \<^verbatim>\<open>decode_bytes("")\<close> does not return \<^verbatim>\<open>b""\<close>.
\<close>

theorem decode_empty_text_counterexample:
  "decode_bytes \<lparr>bytemap = map of_nat HASH64_CHARS, big = False\<rparr> (PyUnicode []) \<noteq> Inr []"
  by (simp add: decode_bytes_def)

subsection \<open>Type errors\<close>

text \<open>
  C9. Every input that is not a byte string, the unicode string \<^verbatim>\<open>""\<close> among them, makes
  both \<^verbatim>\<open>encode_bytes\<close> and \<^verbatim>\<open>decode_bytes\<close> raise \<^verbatim>\<open>TypeError\<close>.
\<close>

theorem codec_rejects_non_bytes:
  "(\<forall>s. source \<noteq> PyBytes s) \<longrightarrow>
     encode_bytes e source = Inl TypeError \<and> decode_bytes e source = Inl TypeError"
  by (cases source) (simp_all add: encode_bytes_def decode_bytes_def)

theorem codec_rejects_non_bytes_witness:
  "(\<forall>s. PyUnicode [] \<noteq> PyBytes s) \<and>
   encode_bytes \<lparr>bytemap = map of_nat HASH64_CHARS, big = False\<rparr> (PyUnicode []) =
     Inl TypeError \<and>
   decode_bytes \<lparr>bytemap = map of_nat HASH64_CHARS, big = False\<rparr> (PyUnicode []) =
     Inl TypeError"
  using codec_rejects_non_bytes
    [of "PyUnicode []" "\<lparr>bytemap = map of_nat HASH64_CHARS, big = False\<rparr>"]
  by simp

subsection \<open>Repair of the unused bits\<close>

lemma padinfo_bits:
  "padinfo2 e = (NOT (padding_bits (big e) 2), make_padset e (padding_bits (big e) 2))"
  "padinfo3 e = (NOT (padding_bits (big e) 3), make_padset e (padding_bits (big e) 3))"
  by (simp_all add: padinfo2_def padinfo3_def padding_bits_def)

lemma in_filtered_enumerate:
  assumes "distinct xs" "i < length xs"
  shows "xs ! i \<in> snd ` set (filter (\<lambda>(i, c). P i) (enumerate 0 xs)) \<longleftrightarrow> P i"
proof
  assume "xs ! i \<in> snd ` set (filter (\<lambda>(i, c). P i) (enumerate 0 xs))"
  then obtain j where j: "j < length xs" "xs ! j = xs ! i" "P j"
    by (auto simp: in_set_enumerate_eq)
  with assms have "j = i" by (simp add: nth_eq_iff_index_eq)
  with j show "P i" by simp
next
  assume "P i"
  with assms(2) have "(i, xs ! i) \<in> set (filter (\<lambda>(i, c). P i) (enumerate 0 xs))"
    by (simp add: in_set_enumerate_eq)
  then show "xs ! i \<in> snd ` set (filter (\<lambda>(i, c). P i) (enumerate 0 xs))"
    by force
qed

lemma distinct_charmap: "valid e \<Longrightarrow> distinct (charmap e)"
  by (simp add: charmap_def valid_def distinct_map inj_on_def word_unat_eq_iff)

lemma padset_int:
  assumes v: "valid e" and f: "fits 6 w"
  shows "IntElem (uint (sym e w)) \<in> set (make_padset e bits) \<longleftrightarrow> w AND bits = 0"
proof -
  from v f have i: "nat w < length (bytemap e)" "distinct (bytemap e)" "int (nat w) = w"
    by (simp_all add: valid_def fits_def nat_less_iff)
  have "IntElem (uint (sym e w)) \<in> set (make_padset e bits) \<longleftrightarrow>
        sym e w \<in> snd ` set (filter (\<lambda>(i, c). int i AND bits = 0) (enumerate 0 (bytemap e)))"
    by (auto simp: make_padset_def image_iff word_uint_eq_iff)
  also have "\<dots> \<longleftrightarrow> int (nat w) AND bits = 0"
    unfolding sym_def using i(2,1) by (rule in_filtered_enumerate)
  finally show ?thesis using i(3) by simp
qed

lemma padset_str:
  assumes v: "valid e" and f: "fits 6 w"
  shows "StrElem (charmap e ! nat w) \<in> set (make_padset e bits) \<longleftrightarrow> w AND bits = 0"
proof -
  from v f have i: "nat w < length (charmap e)" "int (nat w) = w"
    by (simp_all add: valid_def fits_def nat_less_iff charmap_def)
  have "StrElem (charmap e ! nat w) \<in> set (make_padset e bits) \<longleftrightarrow>
        charmap e ! nat w \<in> snd ` set (filter (\<lambda>(i, c). int i AND bits = 0) (enumerate 0 (charmap e)))"
    by (auto simp: make_padset_def image_iff)
  also have "\<dots> \<longleftrightarrow> int (nat w) AND bits = 0"
    using distinct_charmap [OF v] i(1) by (rule in_filtered_enumerate)
  finally show ?thesis using i(2) by simp
qed

lemma decode64_Inr:
  assumes v: "valid e" and d: "decode64 e c = Inr w"
  shows "fits 6 w" and "sym e w = c"
proof -
  from d have "c \<in> set (bytemap e)"
    using decode64_notin [of c e] by auto
  from decode64_in [OF v this] d show "fits 6 w" and "sym e w = c" by auto
qed

lemma str_index_Inr:
  "str_index xs x = Inr i \<Longrightarrow> 0 \<le> i \<and> nat i < length xs \<and> xs ! nat i = x"
proof (induction xs arbitrary: i)
  case Nil
  then show ?case by simp
next
  case (Cons c cs)
  show ?case
  proof (cases "c = x")
    case True
    with Cons.prems show ?thesis by simp
  next
    case False
    with Cons.prems obtain j where j: "str_index cs x = Inr j" "i = j + 1"
      by (auto simp: bind_e_def split: sum.splits)
    from Cons.IH [OF j(1)] j(2) show ?thesis
      by (simp add: nat_add_distrib)
  qed
qed

lemma fits_and_any: "fits n w \<Longrightarrow> fits n (w AND m)"
  unfolding fits_take_bit by (metis take_bit_and and.idem and.assoc take_bit_eq_mask and.commute)

lemma and_not_and: "(w AND NOT m) AND m = (0::int)"
  by (simp add: and.assoc)


lemma str_getitem_fits:
  "valid e \<Longrightarrow> fits 6 w \<Longrightarrow> str_getitem (charmap e) w = Inr (charmap e ! nat w)"
  by (simp add: str_getitem_def charmap_def valid_def fits_def)

lemma tail23:
  assumes "length s mod 4 = 2 \<or> length s mod 4 = 3"
  shows "length s mod 4 \<noteq> 0"
    and "(if length s mod 4 = 2 then padinfo2 e else padinfo3 e) =
         (NOT (padding_bits (big e) (length s mod 4)),
          make_padset e (padding_bits (big e) (length s mod 4)))"
  using assms by (auto simp: padinfo_bits)

lemma repair_bytes:
  assumes v: "valid e" and t: "length s mod 4 = 2 \<or> length s mod 4 = 3"
    and d: "decode64 e (last s) = Inr w"
  shows "encode64 e (w AND NOT (padding_bits (big e) (length s mod 4))) =
           Inr (sym e (w AND NOT (padding_bits (big e) (length s mod 4))))"
    and "check_repair_unused e (PyBytes s) =
          (if w AND padding_bits (big e) (length s mod 4) = 0 then Inr (False, PyBytes s)
           else Inr (True, PyBytes (butlast s @
                  [sym e (w AND NOT (padding_bits (big e) (length s mod 4)))])))"
proof -
  let ?bits = "padding_bits (big e) (length s mod 4)"
  note W = decode64_Inr [OF v d]
  have f: "fits 6 (w AND NOT ?bits)" using W(1) by (rule fits_and_any)
  show enc: "encode64 e (w AND NOT ?bits) = Inr (sym e (w AND NOT ?bits))"
    using v f by (rule encode64_fits)
  have in1: "IntElem (uint (last s)) \<in> set (make_padset e ?bits) \<longleftrightarrow> w AND ?bits = 0"
    using padset_int [OF v W(1), of ?bits] W(2) by simp
  have in2: "IntElem (uint (sym e (w AND NOT ?bits))) \<in> set (make_padset e ?bits)"
    using padset_int [OF v f, of ?bits] by (simp add: and_not_and)
  show "check_repair_unused e (PyBytes s) =
          (if w AND ?bits = 0 then Inr (False, PyBytes s)
           else Inr (True, PyBytes (butlast s @ [sym e (w AND NOT ?bits)])))"
    using t by (simp add: check_repair_unused_def Let_def tail23 [OF t] in1 in2 d enc)
qed

lemma repair_unicode:
  assumes v: "valid e" and t: "length u mod 4 = 2 \<or> length u mod 4 = 3"
    and d: "str_index (charmap e) (last u) = Inr w"
  shows "str_getitem (charmap e) (w AND NOT (padding_bits (big e) (length u mod 4))) =
           Inr (charmap e ! nat (w AND NOT (padding_bits (big e) (length u mod 4))))"
    and "check_repair_unused e (PyUnicode u) =
          (if w AND padding_bits (big e) (length u mod 4) = 0 then Inr (False, PyUnicode u)
           else Inr (True, PyUnicode (butlast u @
                  [charmap e ! nat (w AND NOT (padding_bits (big e) (length u mod 4)))])))"
proof -
  let ?bits = "padding_bits (big e) (length u mod 4)"
  from str_index_Inr [OF d] have w: "0 \<le> w" "nat w < length (charmap e)"
    "charmap e ! nat w = last u" by simp_all
  from w(1,2) v have "w < 64" by (simp add: charmap_def valid_def nat_less_iff)
  with w have W: "fits 6 w" "charmap e ! nat w = last u"
    by (simp_all add: fits_def)
  have f: "fits 6 (w AND NOT ?bits)" using W(1) by (rule fits_and_any)
  show enc: "str_getitem (charmap e) (w AND NOT ?bits) = Inr (charmap e ! nat (w AND NOT ?bits))"
    using v f by (rule str_getitem_fits)
  have in1: "StrElem (last u) \<in> set (make_padset e ?bits) \<longleftrightarrow> w AND ?bits = 0"
    using padset_str [OF v W(1), of ?bits] W(2) by simp
  have in2: "StrElem (charmap e ! nat (w AND NOT ?bits)) \<in> set (make_padset e ?bits)"
    using padset_str [OF v f, of ?bits] by (simp add: and_not_and)
  show "check_repair_unused e (PyUnicode u) =
          (if w AND ?bits = 0 then Inr (False, PyUnicode u)
           else Inr (True, PyUnicode (butlast u @ [charmap e ! nat (w AND NOT ?bits)])))"
    using t by (simp add: check_repair_unused_def Let_def tail23 [OF t] in1 in2 d enc)
qed

text \<open>
  C4. For an engine with a valid character map: a string (of bytes or unicode) whose
  length is a multiple of 4 is returned unchanged with \<^verbatim>\<open>False\<close>; for a string of length
  2 or 3 mod 4 whose last symbol is in the character map, with 6-bit value \<open>w\<close>,
  \<^verbatim>\<open>check_repair_unused\<close> returns \<^verbatim>\<open>(False, s)\<close> exactly when the padding bits of \<open>w\<close>
  are zero, and otherwise \<^verbatim>\<open>(True, s')\<close> where \<open>s'\<close> is \<open>s\<close> with its last symbol replaced
  by the symbol of \<open>w\<close> with the padding bits cleared.
\<close>

theorem check_repair_unused_correct:
  assumes "Base64Engine_init cm b = Inr e"
  shows "(length s mod 4 = 0 \<longrightarrow> check_repair_unused e (PyBytes s) = Inr (False, PyBytes s)) \<and>
         (length u mod 4 = 0 \<longrightarrow> check_repair_unused e (PyUnicode u) = Inr (False, PyUnicode u)) \<and>
         ((length s mod 4 = 2 \<or> length s mod 4 = 3) \<and> decode64 e (last s) = Inr w \<longrightarrow>
            (\<exists>c. encode64 e (w AND NOT (padding_bits (big e) (length s mod 4))) = Inr c \<and>
                 check_repair_unused e (PyBytes s) =
                   (if w AND padding_bits (big e) (length s mod 4) = 0
                    then Inr (False, PyBytes s)
                    else Inr (True, PyBytes (butlast s @ [c]))))) \<and>
         ((length u mod 4 = 2 \<or> length u mod 4 = 3) \<and> str_index (charmap e) (last u) = Inr x \<longrightarrow>
            (\<exists>c. str_getitem (charmap e) (x AND NOT (padding_bits (big e) (length u mod 4))) = Inr c \<and>
                 check_repair_unused e (PyUnicode u) =
                   (if x AND padding_bits (big e) (length u mod 4) = 0
                    then Inr (False, PyUnicode u)
                    else Inr (True, PyUnicode (butlast u @ [c])))))"
proof -
  have v: "valid e" using assms by (rule init_valid)
  have 1: "length s mod 4 = 0 \<longrightarrow> check_repair_unused e (PyBytes s) = Inr (False, PyBytes s)"
    by (simp add: check_repair_unused_def)
  have 2: "length u mod 4 = 0 \<longrightarrow> check_repair_unused e (PyUnicode u) = Inr (False, PyUnicode u)"
    by (simp add: check_repair_unused_def)
  from 1 2 repair_bytes [OF v, of s w] repair_unicode [OF v, of u x] show ?thesis
    by blast
qed


theorem check_repair_unused_correct_witness:
  "Base64Engine_init (PyUnicode BASE64_CHARS) True =
     Inr \<lparr>bytemap = map of_nat BASE64_CHARS, big = True\<rparr> \<and>
   length (map of_char ''TWFu'' :: byte list) mod 4 = 0 \<and>
   check_repair_unused \<lparr>bytemap = map of_nat BASE64_CHARS, big = True\<rparr>
       (PyBytes (map of_char ''TWFu'')) = Inr (False, PyBytes (map of_char ''TWFu'')) \<and>
   length (map of_char ''TWFu'' :: nat list) mod 4 = 0 \<and>
   check_repair_unused \<lparr>bytemap = map of_nat BASE64_CHARS, big = True\<rparr>
       (PyUnicode (map of_char ''TWFu'')) = Inr (False, PyUnicode (map of_char ''TWFu'')) \<and>
   length (map of_char ''TWF'' :: byte list) mod 4 = 3 \<and>
   decode64 \<lparr>bytemap = map of_nat BASE64_CHARS, big = True\<rparr>
       (last (map of_char ''TWF'')) = Inr 5 \<and>
   check_repair_unused \<lparr>bytemap = map of_nat BASE64_CHARS, big = True\<rparr>
       (PyBytes (map of_char ''TWF'')) = Inr (True, PyBytes (map of_char ''TWE'')) \<and>
   length (map of_char ''TWF'' :: nat list) mod 4 = 3 \<and>
   str_index (charmap \<lparr>bytemap = map of_nat BASE64_CHARS, big = True\<rparr>)
       (last (map of_char ''TWF'')) = Inr 5 \<and>
   check_repair_unused \<lparr>bytemap = map of_nat BASE64_CHARS, big = True\<rparr>
       (PyUnicode (map of_char ''TWF'')) = Inr (True, PyUnicode (map of_char ''TWE''))"
proof -
  let ?e = "\<lparr>bytemap = map of_nat BASE64_CHARS, big = True\<rparr>"
  have d: "decode64 ?e (last (map of_char ''TWF'')) = Inr 5"
    by (simp add: decode64_def lookup_def BASE64_CHARS_def)
  have i: "str_index (charmap ?e) (last (map of_char ''TWF'')) = Inr 5"
    by (simp add: charmap_def BASE64_CHARS_def)
  have c: "encode64 ?e 4 = Inr (of_char CHR ''E'')"
    by (simp add: encode64_def BASE64_CHARS_def)
  have g: "str_getitem (charmap ?e) 4 = Inr (of_char CHR ''E'')"
    by (simp add: str_getitem_def charmap_def BASE64_CHARS_def)
  have p: "padding_bits True 3 = 3" "(5::int) AND NOT 3 = 4" "(5::int) AND 3 = 1"
    by (simp_all add: padding_bits_def)
  from check_repair_unused_correct [OF base64_engine [of True],
      of "map of_char ''TWFu''" "map of_char ''TWFu''" 0 0]
    check_repair_unused_correct [OF base64_engine [of True],
      of "map of_char ''TWF''" "map of_char ''TWF''" 5 5]
    base64_engine [of True] d i c g p
  show ?thesis by simp
qed

subsection \<open>Round trip of 64-bit integers\<close>

lemma fits_and63: "fits 6 (x AND 63)"
  unfolding fits_take_bit m63 by (rule bit_eqI) (auto simp: bit_simps)

lemma decode_int_loop_sym:
  assumes "valid e"
  shows "list_all (fits 6) ds \<Longrightarrow>
     decode_int_loop (decode64 e) (map (sym e) ds) out =
       Inr (foldl (\<lambda>acc d. push_bit 6 acc + d) out ds)"
  by (induction ds arbitrary: out) (simp_all add: decode64_sym [OF assms])

lemma digit_step:
  fixes v :: int
  shows "push_bit (6 * n) (drop_bit (6 * n) v AND 63) + take_bit (6 * n) v = take_bit (6 * Suc n) v"
proof -
  let ?w = "take_bit (6 * Suc n) v"
  have "push_bit (6 * n) (drop_bit (6 * n) ?w) + take_bit (6 * n) ?w = ?w"
    by (rule bits_ident)
  moreover have "drop_bit (6 * n) ?w = drop_bit (6 * n) v AND 63"
    unfolding m63 by (rule bit_eqI) (auto simp: bit_simps)
  moreover have "take_bit (6 * n) ?w = take_bit (6 * n) v"
    by (simp add: min_def)
  ultimately show ?thesis by simp
qed

lemma horner6:
  fixes v :: int
  shows "foldl (\<lambda>acc d. push_bit 6 acc + d) out
           (map (\<lambda>k. drop_bit (6 * k) v AND 63) (rev [0..<n])) =
         push_bit (6 * n) out + take_bit (6 * n) v"
proof (induction n arbitrary: out)
  case 0
  then show ?case by simp
next
  case (Suc n)
  have "foldl (\<lambda>acc d. push_bit 6 acc + d) out
           (map (\<lambda>k. drop_bit (6 * k) v AND 63) (rev [0..<Suc n])) =
        push_bit (6 * n) (push_bit 6 out + (drop_bit (6 * n) v AND 63)) + take_bit (6 * n) v"
    by (simp add: Suc.IH)
  also have "\<dots> = push_bit (6 * Suc n) out +
      (push_bit (6 * n) (drop_bit (6 * n) v AND 63) + take_bit (6 * n) v)"
    by (simp add: push_bit_add push_bit_push_bit add.commute del: shift_simps)
  finally show ?case by (simp only: digit_step)
qed

lemma upt11: "[0..<11] = [0, 1, 2, 3, 4, 5, 6, 7, 8, 9, 10::nat]"
  by code_simp

lemma irange_little: "irange 0 66 6 = Inr (map (\<lambda>k. 6 * int k) [0..<11])"
  by (simp add: irange_def)

lemma irange_big: "irange 60 (- 6) (- 6) = Inr (map (\<lambda>k. 6 * int k) (rev [0..<11]))"
  by (simp add: irange_def upt11)


lemma digits_fit: "list_all (fits 6) (map (\<lambda>k. drop_bit (6 * k) (v::int) AND 63) ks)"
  by (simp add: list_all_iff fits_and63)

lemma encode_int_64:
  assumes v: "valid e" and n: "0 \<le> n"
  shows "encode_int e n 64 =
     Inr (map (sym e) (map (\<lambda>k. drop_bit (6 * k) (if big e then push_bit 2 n else n) AND 63)
            (if big e then rev [0..<11] else [0..<11])))"
proof -
  have "imap (encode64 e) (map (\<lambda>k. drop_bit (6 * k) w AND 63) ks) =
        Inr (map (sym e) (map (\<lambda>k. drop_bit (6 * k) w AND 63) ks))" for w :: int and ks
    by (rule imap_encode64 [OF v digits_fit])
  then show ?thesis
    using n
    by (simp add: encode_int_def irange_little irange_big comp_def nat_mult_distrib
        del: shift_simps upt_Suc)
qed


lemma decode_int_64_little:
  assumes v: "valid e" and b: "\<not> big e"
  shows "decode_int e (PyBytes (map (sym e) (map (\<lambda>k. drop_bit (6 * k) n AND 63) [0..<11]))) 64 =
         Inr (take_bit 64 n)"
proof -
  let ?ds = "map (\<lambda>k. drop_bit (6 * k) n AND 63)"
  have "decode_int_loop (decode64 e) (rev (map (sym e) (?ds [0..<11]))) 0 =
        Inr (take_bit 66 n)"
    using decode_int_loop_sym [OF v digits_fit, of n "rev [0..<11]" 0] horner6 [of 0 n 11]
    by (simp add: rev_map del: upt_Suc shift_simps)
  moreover have "take_bit 66 n AND (push_bit 64 1 - 1) = take_bit 64 n"
  proof -
    have "push_bit 64 1 - 1 = (mask 64 :: int)"
      by (simp add: mask_eq_exp_minus_1 push_bit_of_1)
    then have "take_bit 66 n AND (push_bit 64 1 - 1) = take_bit 64 (take_bit 66 n)"
      by (simp only: take_bit_eq_mask)
    then show ?thesis by (simp add: min_def)
  qed
  ultimately show ?thesis
    using b by (simp add: decode_int_def del: upt_Suc shift_simps)
qed

lemma decode_int_64_big:
  assumes v: "valid e" and b: "big e"
  shows "decode_int e (PyBytes (map (sym e)
            (map (\<lambda>k. drop_bit (6 * k) (push_bit 2 n) AND 63) (rev [0..<11])))) 64 =
         Inr (take_bit 64 n)"
proof -
  let ?ds = "map (\<lambda>k. drop_bit (6 * k) (push_bit 2 n) AND 63)"
  have "decode_int_loop (decode64 e) (map (sym e) (?ds (rev [0..<11]))) 0 =
        Inr (take_bit 66 (push_bit 2 n))"
    using decode_int_loop_sym [OF v digits_fit, of "push_bit 2 n" "rev [0..<11]" 0]
      horner6 [of 0 "push_bit 2 n" 11]
    by (simp del: upt_Suc shift_simps)
  moreover have "drop_bit 2 (take_bit 66 (push_bit 2 n)) = take_bit 64 n"
    by (rule bit_eqI) (auto simp: bit_simps)
  ultimately show ?thesis
    using b by (simp add: decode_int_def del: upt_Suc shift_simps)
qed

text \<open>
  C2. For an engine with a valid character map, of either endianness, every integer in
  \<open>[0, 2 ^ 64)\<close> is encoded by \<^verbatim>\<open>encode_int64\<close> and decoded back to itself by
  \<^verbatim>\<open>decode_int64\<close>; for every integer from \<open>2 ^ 64\<close> on, \<^verbatim>\<open>encode_int64\<close> raises
  \<^verbatim>\<open>ValueError\<close>.
\<close>

theorem int64_roundtrip:
  assumes "Base64Engine_init cm b = Inr e"
  shows "(0 \<le> n \<and> n < 2 ^ 64 \<longrightarrow>
            (\<exists>t. encode_int64 e n = Inr t \<and> decode_int64 e (PyBytes t) = Inr n)) \<and>
         (n \<ge> 2 ^ 64 \<longrightarrow> encode_int64 e n = Inl ValueError)"
proof -
  have v: "valid e" using assms by (rule init_valid)
  have "\<exists>t. encode_int64 e n = Inr t \<and> decode_int64 e (PyBytes t) = Inr n"
    if n: "0 \<le> n" "n < 2 ^ 64"
  proof -
    from n have tb: "take_bit 64 n = n" by (simp add: take_bit_int_eq_self)
    from n have enc: "encode_int64 e n = encode_int e n 64"
      by (simp add: encode_int64_def)
    show ?thesis
    proof (cases "big e")
      case True
      with encode_int_64 [OF v n(1)] decode_int_64_big [OF v True, of n] enc tb
      show ?thesis by (simp add: decode_int64_def del: upt_Suc shift_simps)
    next
      case False
      with encode_int_64 [OF v n(1)] decode_int_64_little [OF v False, of n] enc tb
      show ?thesis by (simp add: decode_int64_def del: upt_Suc shift_simps)
    qed
  qed
  moreover have "encode_int64 e n = Inl ValueError" if "n \<ge> 2 ^ 64"
    using that by (simp add: encode_int64_def)
  ultimately show ?thesis by blast
qed

theorem int64_roundtrip_witness:
  "Base64Engine_init (PyUnicode HASH64_CHARS) False =
     Inr \<lparr>bytemap = map of_nat HASH64_CHARS, big = False\<rparr> \<and>
   (0::int) \<le> 0x123456789abcdef0 \<and> (0x123456789abcdef0::int) < 2 ^ 64 \<and>
   (\<exists>t. encode_int64 \<lparr>bytemap = map of_nat HASH64_CHARS, big = False\<rparr> 0x123456789abcdef0 = Inr t \<and>
        decode_int64 \<lparr>bytemap = map of_nat HASH64_CHARS, big = False\<rparr> (PyBytes t) =
          Inr 0x123456789abcdef0) \<and>
   (2 ^ 64 :: int) \<ge> 2 ^ 64 \<and>
   encode_int64 \<lparr>bytemap = map of_nat HASH64_CHARS, big = False\<rparr> (2 ^ 64) = Inl ValueError"
  using int64_roundtrip [OF hash64_engine [of False], of "0x123456789abcdef0"]
    int64_roundtrip [OF hash64_engine [of False], of "2 ^ 64"]
    hash64_engine [of False]
  by simp

section \<open>Results on the registry, the policy and the handlers\<close>



text \<open>
  C7. A policy built from a source with the schemes \<^verbatim>\<open>a\<close> and \<^verbatim>\<open>b\<close>, the default
  \<^verbatim>\<open>a\<close> and the deprecated list \<^verbatim>\<open>[a]\<close> has \<^verbatim>\<open>a\<close> deprecated and \<^verbatim>\<open>b\<close> not; an
  overlay that sets the default \<^verbatim>\<open>b\<close> and has no scheme list gives, whenever it gives a
  policy, the schemes \<^verbatim>\<open>a\<close>, \<^verbatim>\<open>b\<close> and the default \<^verbatim>\<open>b\<close>, and it gives one when it
  sets nothing else.
\<close>

theorem policy_overlay_default:
  assumes src: "src_schemes s = Some [''a'', ''b'']" "src_default s = Some ''a''"
      "map_of (src_deprecated s) None = Some [''a'']"
    and p: "from_sources [s] = Inr p"
    and ov: "src_schemes t = None" "src_default t = Some ''b''"
  shows "handler_is_deprecated p ''a'' None \<and> \<not> handler_is_deprecated p ''b'' None \<and>
         (\<forall>p'. replace p t = Inr p' \<longrightarrow>
                schemes p' = [''a'', ''b''] \<and> default_scheme p' = Some ''b'') \<and>
         (src_deprecated t = [] \<and> src_options t = [] \<longrightarrow> (\<exists>p'. replace p t = Inr p'))"
proof -
  from p src have P: "schemes p = [''a'', ''b'']" "default_scheme p = Some ''a''"
    "deprecated p = src_deprecated s" "options p = src_options s"
    and ok: "\<not> list_ex (\<lambda>((cat, scheme, opt), v). opt = ''salt'') (src_options s)"
      "\<not> list_ex (\<lambda>(cat, ds). list_ex (\<lambda>d. d \<notin> set [''a'', ''b'']) ds) (src_deprecated s)"
    by (auto simp: from_sources_def validate_source_def Let_def split: if_splits)
  have 1: "handler_is_deprecated p ''a'' None" "\<not> handler_is_deprecated p ''b'' None"
    using P src by (simp_all add: handler_is_deprecated_def)
  have 2: "schemes p' = [''a'', ''b''] \<and> default_scheme p' = Some ''b''"
    if "replace p t = Inr p'" for p'
    using that P ov
    by (auto simp: replace_def from_sources_def to_source_def merge_sources_def
        validate_source_def Let_def split: if_splits)
  have 3: "\<exists>p'. replace p t = Inr p'" if "src_deprecated t = []" "src_options t = []"
    using that P ok ov
    by (simp add: replace_def from_sources_def to_source_def merge_sources_def
        validate_source_def)
  from 1 2 3 show ?thesis by blast
qed

theorem policy_overlay_default_witness:
  "src_schemes ab_source = Some [''a'', ''b''] \<and> src_default ab_source = Some ''a'' \<and>
   map_of (src_deprecated ab_source) None = Some [''a''] \<and>
   from_sources [ab_source] =
     Inr \<lparr>schemes = [''a'', ''b''], default_scheme = Some ''a'',
          deprecated = [(None, [''a''])], options = []\<rparr> \<and>
   src_schemes default_b = None \<and> src_default default_b = Some ''b'' \<and>
   src_deprecated default_b = [] \<and> src_options default_b = [] \<and>
   replace \<lparr>schemes = [''a'', ''b''], default_scheme = Some ''a'',
            deprecated = [(None, [''a''])], options = []\<rparr> default_b =
     Inr \<lparr>schemes = [''a'', ''b''], default_scheme = Some ''b'',
          deprecated = [(None, [''a''])], options = []\<rparr> \<and>
   handler_is_deprecated \<lparr>schemes = [''a'', ''b''], default_scheme = Some ''a'',
            deprecated = [(None, [''a''])], options = []\<rparr> ''a'' None \<and>
   \<not> handler_is_deprecated \<lparr>schemes = [''a'', ''b''], default_scheme = Some ''a'',
            deprecated = [(None, [''a''])], options = []\<rparr> ''b'' None"
proof -
  let ?p = "\<lparr>schemes = [''a'', ''b''], default_scheme = Some ''a'',
            deprecated = [(None, [''a''])], options = []\<rparr>"
  have a: "src_schemes ab_source = Some [''a'', ''b'']" "src_default ab_source = Some ''a''"
    "map_of (src_deprecated ab_source) None = Some [''a'']"
    by (simp_all add: ab_source_def)
  have b: "from_sources [ab_source] = Inr ?p"
    by (simp add: from_sources_def validate_source_def ab_source_def)
  have c: "src_schemes default_b = None" "src_default default_b = Some ''b''"
    "src_deprecated default_b = []" "src_options default_b = []"
    by (simp_all add: default_b_def)
  have d: "replace ?p default_b = Inr \<lparr>schemes = [''a'', ''b''], default_scheme = Some ''b'',
          deprecated = [(None, [''a''])], options = []\<rparr>"
    by (simp add: replace_def from_sources_def to_source_def merge_sources_def
        validate_source_def default_b_def)
  from policy_overlay_default [OF a b c(1,2)] a b c d show ?thesis by simp
qed

text \<open>
  C8, as amended. A handler built with \<^verbatim>\<open>rounds\<close> one below \<^verbatim>\<open>min_rounds\<close> raises the
  range error. Built with \<^verbatim>\<open>use_defaults=True\<close> and no \<^verbatim>\<open>rounds\<close>, it has
  \<^verbatim>\<open>rounds == default_rounds\<close> when the handler declares a \<^verbatim>\<open>default_rounds\<close> within
  \<^verbatim>\<open>[min_rounds, max_rounds]\<close>; the construction raises \<^verbatim>\<open>TypeError\<close> when
  \<^verbatim>\<open>default_rounds\<close> is \<^verbatim>\<open>None\<close>, and the range error when \<^verbatim>\<open>default_rounds\<close> lies
  outside the bounds.
\<close>

theorem init_rounds_bounds_and_default:
  "init_rounds h (IntRounds (min_rounds h - 1)) use_defaults = Inl ValueError \<and>
   (default_rounds h = Some d \<and> min_rounds h \<le> d \<and> d \<le> max_rounds h \<longrightarrow>
      init_rounds h NoRounds True = Inr d) \<and>
   (default_rounds h = None \<longrightarrow> init_rounds h NoRounds True = Inl TypeError) \<and>
   (default_rounds h = Some d \<and> (d < min_rounds h \<or> max_rounds h < d) \<longrightarrow>
      init_rounds h NoRounds True = Inl ValueError)"
  by (auto simp: init_rounds_def norm_rounds_def)

theorem init_rounds_bounds_and_default_witness:
  "init_rounds d1 (IntRounds (min_rounds d1 - 1)) False = Inl ValueError \<and>
   default_rounds d1 = Some 2 \<and> min_rounds d1 \<le> 2 \<and> 2 \<le> max_rounds d1 \<and>
   init_rounds d1 NoRounds True = Inr 2 \<and>
   default_rounds d1_no_default = None \<and>
   init_rounds d1_no_default NoRounds True = Inl TypeError \<and>
   default_rounds d1_default_7 = Some 7 \<and>
   (7 < min_rounds d1_default_7 \<or> max_rounds d1_default_7 < 7) \<and>
   init_rounds d1_default_7 NoRounds True = Inl ValueError"
proof -
  have a: "default_rounds d1 = Some 2" "min_rounds d1 \<le> 2" "2 \<le> max_rounds d1"
    "default_rounds d1_no_default = None"
    "default_rounds d1_default_7 = Some 7" "max_rounds d1_default_7 < 7"
    by (simp_all add: d1_def d1_no_default_def d1_default_7_def)
  from init_rounds_bounds_and_default [of d1 False 2]
    init_rounds_bounds_and_default [of d1_no_default False 2]
    init_rounds_bounds_and_default [of d1_default_7 False 7] a
  show ?thesis by simp
qed

text \<open>
  C8 as stated fails: with \<^verbatim>\<open>use_defaults=True\<close> and no \<^verbatim>\<open>rounds\<close>, a handler without
  \<^verbatim>\<open>default_rounds\<close> raises \<^verbatim>\<open>TypeError\<close>, and a handler whose \<^verbatim>\<open>default_rounds\<close> is
  above \<^verbatim>\<open>max_rounds\<close> raises the range error; neither yields an instance.
\<close>

theorem init_rounds_no_default_counterexample:
  "init_rounds d1_no_default NoRounds True = Inl TypeError \<and>
   init_rounds d1_default_7 NoRounds True = Inl ValueError"
  by (simp add: init_rounds_def norm_rounds_def d1_no_default_def d1_default_7_def)

end
